theory Spec2Isabelle
  imports Complex_Main "HOL-Library.Word"
begin

section \<open>The fetch worker: \<open>download_wms_tile\<close>\<close>

text \<open>
  \<open>download_wms_tile(zoom, x, y, auth_key, max_retries=5)\<close> builds one URL from its
  arguments and then runs \<open>for attempt in range(max_retries)\<close>, issuing one
  \<open>requests.get\<close> per iteration. What the network answers and what
  \<open>random.uniform(0, 1)\<close> draws are inputs of the model: \<open>net k\<close> is the outcome of
  the GET of attempt \<open>k\<close>, \<open>jit k\<close> the jitter drawn at attempt \<open>k\<close>. Waiting times are
  real numbers. The function returns the payload (\<open>None\<close> for Python's \<open>None\<close>) and the
  trace of what it did: GETs, sleeps and printed lines.
\<close>

type_synonym bytes = "8 word list"

datatype outcome =
    Response int bytes      \<comment> \<open>\<open>status_code\<close>, \<open>content\<close>\<close>
  | Timeout                 \<comment> \<open>\<open>requests.exceptions.Timeout\<close>\<close>
  | ConnectionError         \<comment> \<open>\<open>requests.exceptions.ConnectionError\<close>\<close>
  | OtherException          \<comment> \<open>any other \<open>Exception\<close>\<close>

datatype msg =
    RateLimitedMsg real nat nat   \<comment> \<open>wait time, \<open>attempt+1\<close>, \<open>max_retries\<close>\<close>
  | HttpStatusMsg int             \<comment> \<open>\<open>HTTP {status_code} for tile ...\<close>\<close>
  | NetworkErrorMsg nat nat real  \<comment> \<open>\<open>attempt+1\<close>, \<open>max_retries\<close>, wait time\<close>
  | ErrorDownloadingMsg           \<comment> \<open>\<open>Error downloading tile ...\<close>\<close>

datatype wevent = Get nat | Sleep real | Print msg

fun prepend :: "wevent list \<Rightarrow> bytes option \<times> wevent list \<Rightarrow> bytes option \<times> wevent list" where
  "prepend evs (r, evs') = (r, evs @ evs')"

definition wait_time :: "(nat \<Rightarrow> real) \<Rightarrow> nat \<Rightarrow> real" where
  "wait_time jit attempt = 2 ^ attempt + jit attempt"

function download_loop ::
  "(nat \<Rightarrow> outcome) \<Rightarrow> (nat \<Rightarrow> real) \<Rightarrow> nat \<Rightarrow> nat \<Rightarrow> bytes option \<times> wevent list" where
  "download_loop net jit max_retries attempt =
     (if attempt < max_retries then
        (case net attempt of
           Response status_code content \<Rightarrow>
             if status_code = 200 \<and> length content > 0 then
               (Some content, [Get attempt])
             else if status_code = 429 then
               prepend [Get attempt,
                        Print (RateLimitedMsg (wait_time jit attempt) (attempt + 1) max_retries),
                        Sleep (wait_time jit attempt)]
                 (download_loop net jit max_retries (attempt + 1))
             else
               prepend [Get attempt, Print (HttpStatusMsg status_code)]
                 (download_loop net jit max_retries (attempt + 1))
         | Timeout \<Rightarrow>
             prepend ([Get attempt,
                       Print (NetworkErrorMsg (attempt + 1) max_retries (wait_time jit attempt))]
                      @ (if attempt + 1 < max_retries then [Sleep (wait_time jit attempt)] else []))
               (download_loop net jit max_retries (attempt + 1))
         | ConnectionError \<Rightarrow>
             prepend ([Get attempt,
                       Print (NetworkErrorMsg (attempt + 1) max_retries (wait_time jit attempt))]
                      @ (if attempt + 1 < max_retries then [Sleep (wait_time jit attempt)] else []))
               (download_loop net jit max_retries (attempt + 1))
         | OtherException \<Rightarrow>
             (None, [Get attempt, Print ErrorDownloadingMsg]))
      else (None, []))"
  by pat_completeness auto
termination
  by (relation "measure (\<lambda>(net, jit, max_retries, attempt). max_retries - attempt)") auto

declare download_loop.simps [simp del]

definition download_wms_tile ::
  "(nat \<Rightarrow> outcome) \<Rightarrow> (nat \<Rightarrow> real) \<Rightarrow> nat \<Rightarrow> bytes option \<times> wevent list" where
  "download_wms_tile net jit max_retries = download_loop net jit max_retries 0"

text \<open>Reading a trace: the attempts made and the waits slept, in order.\<close>

fun gets :: "wevent list \<Rightarrow> nat list" where
  "gets [] = []"
| "gets (Get k # evs) = k # gets evs"
| "gets (_ # evs) = gets evs"

fun sleeps :: "wevent list \<Rightarrow> real list" where
  "sleeps [] = []"
| "sleeps (Sleep t # evs) = t # sleeps evs"
| "sleeps (_ # evs) = sleeps evs"

fun prints :: "wevent list \<Rightarrow> msg list" where
  "prints [] = []"
| "prints (Print m # evs) = m # prints evs"
| "prints (_ # evs) = prints evs"

text \<open>The classes of outcomes the retry policy distinguishes.\<close>

fun is_success :: "outcome \<Rightarrow> bool" where
  "is_success (Response status_code content) = (status_code = 200 \<and> length content > 0)"
| "is_success _ = False"

fun is_rate_limited :: "outcome \<Rightarrow> bool" where
  "is_rate_limited (Response status_code content) = (status_code = 429)"
| "is_rate_limited _ = False"

fun is_network_error :: "outcome \<Rightarrow> bool" where
  "is_network_error Timeout = True"
| "is_network_error ConnectionError = True"
| "is_network_error _ = False"


text \<open>
  When a failed attempt is followed by a sleep: always after a 429, and after a network
  error unless it was the last attempt (\<open>if attempt < max_retries - 1\<close>).
\<close>

definition waits_at :: "(nat \<Rightarrow> outcome) \<Rightarrow> nat \<Rightarrow> nat \<Rightarrow> bool" where
  "waits_at net m k \<longleftrightarrow> is_rate_limited (net k) \<or> (is_network_error (net k) \<and> k + 1 < m)"



text \<open>
  The shape of every trace from attempt \<open>attempt\<close> on: consecutive attempts, and one
  sleep of \<open>wait_time\<close> for each attempt that \<open>waits_at\<close> selects.
\<close>

definition trace_ok :: "(nat \<Rightarrow> outcome) \<Rightarrow> (nat \<Rightarrow> real) \<Rightarrow> nat \<Rightarrow> nat \<Rightarrow> bool" where
  "trace_ok net jit m attempt \<longleftrightarrow>
     (\<exists>n. n \<le> m - attempt \<and> gets (snd (download_loop net jit m attempt)) = [attempt ..< attempt + n]
      \<and> sleeps (snd (download_loop net jit m attempt)) =
          map (wait_time jit) (filter (waits_at net m) [attempt ..< attempt + n]))"


text \<open>
  The waits as the specification words them, for comparison: after every retryable
  failure (429 or network error) a wait of \<open>min (2 ^ attempt) cap + jitter\<close>.
\<close>

definition spec_waits :: "real \<Rightarrow> (nat \<Rightarrow> outcome) \<Rightarrow> (nat \<Rightarrow> real) \<Rightarrow> nat list \<Rightarrow> real list" where
  "spec_waits cap net jit attempts =
     map (\<lambda>k. min (2 ^ k) cap + jit k)
       (filter (\<lambda>k. is_rate_limited (net k) \<or> is_network_error (net k)) attempts)"


section \<open>The coordinate engine: \<open>deg2num\<close>\<close>

text \<open>
  \<open>int(...)\<close> on a finite float is truncation toward zero. \<open>deg2num\<close> below is the
  function in exact arithmetic on finite inputs, with \<open>math.radians\<close> as multiplication
  by \<open>pi / 180\<close> and a zoom level that is a natural number (the orchestrator raises
  before it uses a negative one). The orchestrator applies it to the constants of the two
  bounds tiers only. \<open>deg2num_float\<close> further down is the function on Python's floats,
  for any floating-point arithmetic.
\<close>

definition py_int :: "real \<Rightarrow> int" where
  "py_int r = (if 0 \<le> r then \<lfloor>r\<rfloor> else \<lceil>r\<rceil>)"

definition deg2num :: "real \<Rightarrow> real \<Rightarrow> nat \<Rightarrow> int \<times> int" where
  "deg2num lat_deg lon_deg zoom =
     (let lat_rad = lat_deg * pi / 180;
          n = 2 ^ zoom;
          xtile = py_int ((lon_deg + 180) / 360 * n);
          ytile = py_int ((1 - arsinh (tan lat_rad) / pi) / 2 * n)
      in (xtile, ytile))"

text \<open>
  Python's floats: the finite doubles, as the real numbers they denote, the two
  infinities and NaN. The arithmetic of the machine is a parameter: each operation the
  source applies is a field of \<open>fpu\<close>, so that rounding, overflow and the values of
  \<open>math.tan\<close> and \<open>math.asinh\<close> are whatever the machine gives. \<open>2.0 ** zoom\<close> raises
  \<open>OverflowError\<close> when the result is out of range and \<open>math.tan\<close> raises \<open>ValueError\<close>
  on an infinity; \<open>int(...)\<close> raises \<open>OverflowError\<close> on an infinity and \<open>ValueError\<close> on
  NaN.
\<close>

datatype pyfloat = Fin real | PosInf | NegInf | NaN

datatype float_error = OverflowError | ValueError

record fpu =
  fadd :: "pyfloat \<Rightarrow> pyfloat \<Rightarrow> pyfloat"
  fsub :: "pyfloat \<Rightarrow> pyfloat \<Rightarrow> pyfloat"
  fmul :: "pyfloat \<Rightarrow> pyfloat \<Rightarrow> pyfloat"
  fdiv :: "pyfloat \<Rightarrow> pyfloat \<Rightarrow> pyfloat"
  fpow2 :: "int \<Rightarrow> float_error + pyfloat"
  fradians :: "pyfloat \<Rightarrow> pyfloat"
  ftan :: "pyfloat \<Rightarrow> float_error + pyfloat"
  fasinh :: "pyfloat \<Rightarrow> pyfloat"
  fpi :: pyfloat

fun int_of_float :: "pyfloat \<Rightarrow> float_error + int" where
  "int_of_float (Fin r) = Inr (py_int r)"
| "int_of_float PosInf = Inl OverflowError"
| "int_of_float NegInf = Inl OverflowError"
| "int_of_float NaN = Inl ValueError"

text \<open>
  The two floats that \<open>deg2num\<close> passes to \<open>int(...)\<close>:
  \<open>(lon_deg + 180.0) / 360.0 * n\<close> and
  \<open>(1.0 - math.asinh(math.tan(lat_rad)) / math.pi) / 2.0 * n\<close>.
\<close>

definition x_value :: "fpu \<Rightarrow> pyfloat \<Rightarrow> pyfloat \<Rightarrow> pyfloat" where
  "x_value fp lon_deg n = fmul fp (fdiv fp (fadd fp lon_deg (Fin 180)) (Fin 360)) n"

definition y_value :: "fpu \<Rightarrow> pyfloat \<Rightarrow> pyfloat \<Rightarrow> pyfloat" where
  "y_value fp t n =
     fmul fp (fdiv fp (fsub fp (Fin 1) (fdiv fp (fasinh fp t) (fpi fp))) (Fin 2)) n"

definition deg2num_float ::
  "fpu \<Rightarrow> pyfloat \<Rightarrow> pyfloat \<Rightarrow> int \<Rightarrow> float_error + int \<times> int" where
  "deg2num_float fp lat_deg lon_deg zoom =
     (let lat_rad = fradians fp lat_deg
      in case fpow2 fp zoom of
           Inl e \<Rightarrow> Inl e
         | Inr n \<Rightarrow>
             (case int_of_float (x_value fp lon_deg n) of
                Inl e \<Rightarrow> Inl e
              | Inr xtile \<Rightarrow>
                  (case ftan fp lat_rad of
                     Inl e \<Rightarrow> Inl e
                   | Inr t \<Rightarrow>
                       (case int_of_float (y_value fp t n) of
                          Inl e \<Rightarrow> Inl e
                        | Inr ytile \<Rightarrow> Inr (xtile, ytile)))))"

text \<open>
  The machine that computes without rounding and without overflow. It agrees with
  double-precision arithmetic wherever that is exact.
\<close>

fun lift2 :: "(real \<Rightarrow> real \<Rightarrow> real) \<Rightarrow> pyfloat \<Rightarrow> pyfloat \<Rightarrow> pyfloat" where
  "lift2 f (Fin a) (Fin b) = Fin (f a b)"
| "lift2 f _ _ = NaN"

fun lift1 :: "(real \<Rightarrow> real) \<Rightarrow> pyfloat \<Rightarrow> pyfloat" where
  "lift1 f (Fin a) = Fin (f a)"
| "lift1 f _ = NaN"

fun ideal_tan :: "pyfloat \<Rightarrow> float_error + pyfloat" where
  "ideal_tan (Fin a) = Inr (Fin (tan a))"
| "ideal_tan NaN = Inr NaN"
| "ideal_tan _ = Inl ValueError"

definition ideal_fpu :: fpu where
  "ideal_fpu =
     \<lparr>fadd = lift2 (+), fsub = lift2 (-), fmul = lift2 (*), fdiv = lift2 (/),
      fpow2 = (\<lambda>z. Inr (Fin (if 0 \<le> z then 2 ^ nat z else 1 / 2 ^ nat (- z)))),
      fradians = lift1 (\<lambda>a. a * pi / 180),
      ftan = ideal_tan,
      fasinh = lift1 arsinh,
      fpi = Fin pi\<rparr>"

section \<open>The tile archive\<close>

text \<open>
  The archive is the SQLite file \<open>nz_nationalmap_emergency.mbtiles\<close>. A file either has
  the schema this program creates (tables \<open>metadata\<close> and \<open>tiles\<close> and the unique index
  \<open>tile_index\<close> on \<open>(zoom_level, tile_column, tile_row)\<close>) or has none of it. A
  connection holds what is committed to the file and what the open transaction sees.
  Python's \<open>sqlite3\<close> opens a transaction before an \<open>INSERT\<close>, runs \<open>CREATE\<close> statements
  outside a transaction when none is open, makes the pending rows durable only in
  \<open>commit()\<close>, and \<open>close()\<close> does not commit: the pending transaction is rolled back.
\<close>

datatype error = OperationalError | IntegrityError | TypeError

type_synonym tile_key = "nat \<times> int \<times> int"
type_synonym tile_rec = "nat \<times> int \<times> int \<times> bytes"
type_synonym tile_args = "nat \<times> int \<times> int \<times> string"

record db =
  schema :: bool
  metadata :: "(string \<times> string) list"
  tiles :: "tile_rec list"

record conn =
  committed :: db
  working :: db

definition empty_db :: db where
  "empty_db = \<lparr>schema = False, metadata = [], tiles = []\<rparr>"

fun key_of :: "tile_rec \<Rightarrow> tile_key" where
  "key_of (zoom_level, tile_column, tile_row, tile_data) = (zoom_level, tile_column, tile_row)"

definition keys :: "db \<Rightarrow> tile_key set" where
  "keys d = set (map key_of (tiles d))"

definition connect :: "db option \<Rightarrow> conn" where
  "connect file = (case file of
       None \<Rightarrow> \<lparr>committed = empty_db, working = empty_db\<rparr>
     | Some d \<Rightarrow> \<lparr>committed = d, working = d\<rparr>)"

definition create_schema :: "conn \<Rightarrow> conn" where
  "create_schema c = \<lparr>committed = (committed c)\<lparr>schema := True\<rparr>,
                       working = (working c)\<lparr>schema := True\<rparr>\<rparr>"

definition insert_metadata :: "conn \<Rightarrow> (string \<times> string) list \<Rightarrow> conn" where
  "insert_metadata c rows = c\<lparr>working := (working c)\<lparr>metadata := metadata (working c) @ rows\<rparr>\<rparr>"

definition commit :: "conn \<Rightarrow> conn" where
  "commit c = c\<lparr>committed := working c\<rparr>"

definition close :: "conn \<Rightarrow> db" where
  "close c = committed c"

text \<open>The row inversion both \<open>tile_exists\<close> and \<open>download_tile_worker\<close> compute as \<open>tms_y\<close>.\<close>

definition tms_y :: "nat \<Rightarrow> int \<Rightarrow> int" where
  "tms_y zoom y = (2 ^ zoom - 1) - y"

definition tile_exists :: "conn \<Rightarrow> nat \<Rightarrow> int \<Rightarrow> int \<Rightarrow> error + bool" where
  "tile_exists c zoom x y =
     (let t = tms_y zoom y
      in if \<not> schema (working c) then Inl OperationalError
         else Inr ((zoom, x, t) \<in> keys (working c)))"

definition execute_insert_tile :: "db \<Rightarrow> tile_rec \<Rightarrow> error + db" where
  "execute_insert_tile w r =
     (if \<not> schema w then Inl OperationalError
      else if key_of r \<in> keys w then Inl IntegrityError
      else Inr (w\<lparr>tiles := tiles w @ [r]\<rparr>))"

section \<open>The orchestrator: \<open>create_nationalmap_mbtiles\<close>\<close>

record bounds =
  min_lat :: real
  max_lat :: real
  min_lon :: real
  max_lon :: real

definition wide_bounds :: bounds where
  "wide_bounds = \<lparr>min_lat = -56.33, max_lat = -25.19, min_lon = -180, max_lon = 180\<rparr>"

definition narrow_bounds :: bounds where
  "narrow_bounds = \<lparr>min_lat = -47.5, max_lat = -34, min_lon = 166, max_lon = 179\<rparr>"

definition current_bounds :: "int \<Rightarrow> bounds" where
  "current_bounds zoom = (if 1 \<le> zoom \<and> zoom \<le> 9 then wide_bounds else narrow_bounds)"

text \<open>Python's \<open>str\<close> on an integer.\<close>

fun str_nat :: "nat \<Rightarrow> string" where
  "str_nat n = (if n < 10 then [char_of (48 + n)]
                else str_nat (n div 10) @ [char_of (48 + n mod 10)])"

declare str_nat.simps [simp del]

definition str_int :: "int \<Rightarrow> string" where
  "str_int i = (if i < 0 then CHR ''-'' # str_nat (nat (- i)) else str_nat (nat i))"

definition metadata_rows :: "int \<Rightarrow> int \<Rightarrow> (string \<times> string) list" where
  "metadata_rows min_zoom max_zoom =
     [(''name'', ''NZ Emergency Management''),
      (''type'', ''baselayer''),
      (''version'', ''1.0.0''),
      (''description'', ''National Map Emergency Management''),
      (''format'', ''png''),
      (''bounds'', ''166.0,-47.5,179.0,-34.0''),
      (''center'', ''173.0,-41.0,6''),
      (''minzoom'', str_int min_zoom),
      (''maxzoom'', str_int max_zoom),
      (''attribution'',
         [CHR 0xC2, CHR 0xA9] @ '' NationalMap WMS Basemap Service CC BY-NC-ND 4.0'')]"

text \<open>
  Opening the archive: \<open>resuming = os.path.exists(output_file)\<close>; the three \<open>CREATE\<close>
  statements and the metadata rows are both under \<open>if not resuming\<close>.
\<close>

definition open_archive :: "db option \<Rightarrow> int \<Rightarrow> int \<Rightarrow> conn" where
  "open_archive file min_zoom max_zoom =
     (let resuming = (file \<noteq> None);
          c = connect file;
          c = (if \<not> resuming then create_schema c else c);
          c = (if \<not> resuming then insert_metadata c (metadata_rows min_zoom max_zoom) else c)
      in c)"

text \<open>The tile index rectangle of a zoom level, clamped to \<open>[0, 2 ^ zoom - 1]\<close>.\<close>

definition tile_rect :: "nat \<Rightarrow> int \<times> int \<times> int \<times> int" where
  "tile_rect zoom =
     (let cb = current_bounds (int zoom);
          (x_min, y_max) = deg2num (min_lat cb) (min_lon cb) zoom;
          (x_max, y_min) = deg2num (max_lat cb) (max_lon cb) zoom;
          x_min = max 0 x_min;
          x_max = min (2 ^ zoom - 1) x_max;
          y_min = max 0 y_min;
          y_max = min (2 ^ zoom - 1) y_max
      in (x_min, x_max, y_min, y_max))"

definition cells :: "int \<times> int \<times> int \<times> int \<Rightarrow> (int \<times> int) list" where
  "cells r = (case r of (x_min, x_max, y_min, y_max) \<Rightarrow>
     concat (map (\<lambda>x. map (\<lambda>y. (x, y)) [y_min..y_max]) [x_min..x_max]))"

text \<open>
  The loop that builds \<open>tile_list\<close> and counts \<open>existing_count\<close>; \<open>tile_exists\<close> reads
  through the cursor, so it sees the rows of the open transaction.
\<close>

fun build_tile_list ::
  "conn \<Rightarrow> nat \<Rightarrow> string \<Rightarrow> (int \<times> int) list \<Rightarrow> error + (tile_args list \<times> nat)" where
  "build_tile_list c zoom auth_key [] = Inr ([], 0)"
| "build_tile_list c zoom auth_key ((x, y) # rest) =
     (case tile_exists c zoom x y of
        Inl e \<Rightarrow> Inl e
      | Inr ex \<Rightarrow>
          (case build_tile_list c zoom auth_key rest of
             Inl e \<Rightarrow> Inl e
           | Inr (tile_list, existing_count) \<Rightarrow>
               if ex then Inr (tile_list, existing_count + 1)
               else Inr ((zoom, x, y, auth_key) # tile_list, existing_count)))"

text \<open>
  \<open>download_tile_worker\<close>: what it returns, what it appends to \<open>tile_queue\<close>, and the
  trace of its fetch. The network and the jitter are given per tile.
\<close>

definition download_tile_worker ::
  "(tile_args \<Rightarrow> nat \<Rightarrow> outcome) \<Rightarrow> (tile_args \<Rightarrow> nat \<Rightarrow> real) \<Rightarrow> tile_args
     \<Rightarrow> bool \<times> tile_rec list \<times> wevent list" where
  "download_tile_worker net jit tile_args =
     (case tile_args of (z, x, y, key) \<Rightarrow>
        (case download_wms_tile (net (z, x, y, key)) (jit (z, x, y, key)) 5 of
           (Some tile_data, tr) \<Rightarrow>
             if tile_data \<noteq> [] then (True, [(z, x, tms_y z y, tile_data)], tr)
             else (False, [], tr)
         | (None, tr) \<Rightarrow> (False, [], tr)))"

text \<open>
  Draining \<open>tile_queue\<close> in the main thread: each row is inserted; an \<open>IntegrityError\<close>
  is caught and printed as \<open>Duplicate tile\<close>, any other error propagates.
\<close>

fun drain_queue :: "conn \<Rightarrow> tile_rec list \<Rightarrow> error option \<times> conn \<times> tile_key list" where
  "drain_queue c [] = (None, c, [])"
| "drain_queue c (r # q) =
     (case execute_insert_tile (working c) r of
        Inr w \<Rightarrow> drain_queue (c\<lparr>working := w\<rparr>) q
      | Inl IntegrityError \<Rightarrow>
          (case drain_queue c q of (e, c', dups) \<Rightarrow> (e, c', key_of r # dups))
      | Inl e \<Rightarrow> (Some e, c, []))"

text \<open>
  The \<open>as_completed\<close> loop. The futures complete in the order of the list given; the
  result of each is drained when its future is yielded. \<open>n\<close> is \<open>pbar.n\<close> before the
  update.
\<close>

fun pool_loop ::
  "(tile_args \<Rightarrow> bool \<times> tile_rec list \<times> wevent list) \<Rightarrow> tile_args list \<Rightarrow> nat \<Rightarrow> nat \<Rightarrow> conn
     \<Rightarrow> error option \<times> conn \<times> nat \<times> tile_key list" where
  "pool_loop worker [] n successful_tiles c = (None, c, successful_tiles, [])"
| "pool_loop worker (t # ts) n successful_tiles c =
     (case worker t of (ok, queued, tr) \<Rightarrow>
        (case drain_queue c queued of
           (Some e, c', dups) \<Rightarrow>
             (Some e, c', (if ok then successful_tiles + 1 else successful_tiles), dups)
         | (None, c', dups) \<Rightarrow>
             (case pool_loop worker ts (n + 1)
                     (if ok then successful_tiles + 1 else successful_tiles)
                     (if (n + 1) mod 10 = 0 then commit c' else c') of
                (e, c'', s, dups') \<Rightarrow> (e, c'', s, dups @ dups'))))"

record run_state =
  connection :: conn
  fetched :: "(tile_args \<times> wevent list) list"
  duplicates :: "tile_key list"
  total_tiles_processed :: nat

text \<open>
  One iteration of \<open>for zoom in range(min_zoom, max_zoom + 1)\<close>, for a zoom level that
  is not negative. Every tile of \<open>tile_list\<close> is submitted to the pool, so every one is
  fetched; \<open>sched\<close> gives the order in which \<open>as_completed\<close> yields the futures.
\<close>

definition process_zoom ::
  "(tile_args \<Rightarrow> nat \<Rightarrow> outcome) \<Rightarrow> (tile_args \<Rightarrow> nat \<Rightarrow> real) \<Rightarrow> (tile_args list \<Rightarrow> tile_args list)
     \<Rightarrow> string \<Rightarrow> nat \<Rightarrow> run_state \<Rightarrow> error option \<times> run_state" where
  "process_zoom net jit sched auth_key zoom st =
     (case build_tile_list (connection st) zoom auth_key (cells (tile_rect zoom)) of
        Inl e \<Rightarrow> (Some e, st)
      | Inr (tile_list, existing_count) \<Rightarrow>
          if length tile_list = 0 then (None, st)
          else
            (case pool_loop (download_tile_worker net jit) (sched tile_list) 0 0 (connection st) of
               (e, c, successful_tiles, dups) \<Rightarrow>
                 (e, \<lparr>connection = c,
                      fetched = fetched st
                        @ map (\<lambda>t. (t, snd (snd (download_tile_worker net jit t)))) tile_list,
                      duplicates = duplicates st @ dups,
                      total_tiles_processed =
                        (if e = None then total_tiles_processed st + successful_tiles
                         else total_tiles_processed st)\<rparr>)))"

text \<open>
  The loop over the zoom levels. With a negative zoom level \<open>2**zoom - 1\<close> is a float
  below zero, \<open>x_max\<close> becomes that float, and \<open>range(x_min, x_max + 1)\<close> raises
  \<open>TypeError\<close> before any statement touches the archive.
\<close>

fun zoom_loop ::
  "(tile_args \<Rightarrow> nat \<Rightarrow> outcome) \<Rightarrow> (tile_args \<Rightarrow> nat \<Rightarrow> real) \<Rightarrow> (tile_args list \<Rightarrow> tile_args list)
     \<Rightarrow> string \<Rightarrow> int list \<Rightarrow> run_state \<Rightarrow> error option \<times> run_state" where
  "zoom_loop net jit sched auth_key [] st = (None, st)"
| "zoom_loop net jit sched auth_key (zoom # zs) st =
     (if zoom < 0 then (Some TypeError, st)
      else (case process_zoom net jit sched auth_key (nat zoom) st of
              (Some e, st') \<Rightarrow> (Some e, st')
            | (None, st') \<Rightarrow> zoom_loop net jit sched auth_key zs st'))"

record run_result =
  raised :: "error option"
  archive :: db
  fetches :: "(tile_args \<times> wevent list) list"
  duplicate_log :: "tile_key list"
  tiles_processed :: nat

text \<open>
  The whole run. \<open>file\<close> is the archive file before the run (\<open>None\<close> when it does not
  exist); \<open>archive\<close> is the file after the run: what was committed, both when the run
  ends in \<open>conn.close()\<close> and when an exception ends it.
\<close>

definition create_nationalmap_mbtiles ::
  "(tile_args \<Rightarrow> nat \<Rightarrow> outcome) \<Rightarrow> (tile_args \<Rightarrow> nat \<Rightarrow> real) \<Rightarrow> (tile_args list \<Rightarrow> tile_args list)
     \<Rightarrow> db option \<Rightarrow> string \<Rightarrow> int \<Rightarrow> int \<Rightarrow> run_result" where
  "create_nationalmap_mbtiles net jit sched file auth_key min_zoom max_zoom =
     (case zoom_loop net jit sched auth_key [min_zoom..max_zoom]
             \<lparr>connection = open_archive file min_zoom max_zoom, fetched = [],
              duplicates = [], total_tiles_processed = 0\<rparr> of
        (e, st) \<Rightarrow>
          \<lparr>raised = e, archive = close (connection st), fetches = fetched st,
           duplicate_log = duplicates st, tiles_processed = total_tiles_processed st\<rparr>)"

text \<open>An archive holding one tile, used to illustrate the properties below.\<close>

definition race_conn :: conn where
  "race_conn = \<lparr>committed = \<lparr>schema = True, metadata = [], tiles = [(3, 1, 2, [9])]\<rparr>,
                working = \<lparr>schema = True, metadata = [], tiles = [(3, 1, 2, [9])]\<rparr>\<rparr>"

section \<open>Notions used to state the properties of a run\<close>

text \<open>
  \<open>extends d d'\<close>: the archive \<open>d'\<close> has the schema flag and the metadata of \<open>d\<close>, its
  tile records are those of \<open>d\<close> followed by records for keys that \<open>d\<close> does not hold, and
  it has one record per key if \<open>d\<close> has.
\<close>

definition extends :: "db \<Rightarrow> db \<Rightarrow> bool" where
  "extends d d' \<longleftrightarrow>
     schema d' = schema d \<and> metadata d' = metadata d \<and>
     (\<exists>new. tiles d' = tiles d @ new \<and> key_of ` set new \<inter> keys d = {}) \<and>
     (distinct (map key_of (tiles d)) \<longrightarrow> distinct (map key_of (tiles d')))"

text \<open>The number of tile records of a zoom level.\<close>

definition row_count :: "db \<Rightarrow> nat \<Rightarrow> nat" where
  "row_count d zoom = length (filter (\<lambda>r. fst r = zoom) (tiles d))"

text \<open>The archive key under which the tile of a work item is stored.\<close>

definition key_of_args :: "tile_args \<Rightarrow> tile_key" where
  "key_of_args t = (case t of (z, x, y, key) \<Rightarrow> (z, x, tms_y z y))"

text \<open>The invariant of a connection opened on the archive \<open>d\<close>, and what a step of the run
  keeps: fetches are added only for keys that \<open>d\<close> does not hold, and a step that fetches
  nothing leaves the connection as it was.\<close>

definition conn_inv :: "db \<Rightarrow> conn \<Rightarrow> bool" where
  "conn_inv d c \<longleftrightarrow> extends d (committed c) \<and> extends d (working c)"

definition step_ok :: "db \<Rightarrow> run_state \<Rightarrow> run_state \<Rightarrow> bool" where
  "step_ok d st st' \<longleftrightarrow>
     conn_inv d (connection st') \<and>
     (\<exists>new. fetched st' = fetched st @ new \<and>
        (\<forall>p \<in> set new. key_of_args (fst p) \<notin> keys d) \<and>
        (new = [] \<longrightarrow> connection st' = connection st))"

text \<open>A connection whose archive has the schema and no tile record.\<close>

definition blank_conn :: "conn \<Rightarrow> bool" where
  "blank_conn c \<longleftrightarrow> schema (committed c) \<and> schema (working c) \<and>
     tiles (committed c) = [] \<and> tiles (working c) = []"

text \<open>The Mercator term of \<open>deg2num\<close> and the row value before truncation.\<close>

definition merc :: "real \<Rightarrow> real" where
  "merc lat_deg = arsinh (tan (lat_deg * pi / 180))"

definition row_val :: "real \<Rightarrow> nat \<Rightarrow> real" where
  "row_val lat_deg zoom = (1 - merc lat_deg / pi) / 2 * 2 ^ zoom"

text \<open>Two archives used to illustrate the properties below.\<close>

definition stored_db :: db where
  "stored_db = \<lparr>schema = True, metadata = [(''name'', ''NZ Emergency Management'')],
                 tiles = [(0, 0, 0, [5])]\<rparr>"

definition blank_db :: db where
  "blank_db = \<lparr>schema = True, metadata = [], tiles = []\<rparr>"

section \<open>Properties of the fetch worker\<close>


lemma gets_append: "gets (xs @ ys) = gets xs @ gets ys"
  by (induction xs rule: gets.induct) auto
lemma sleeps_append: "sleeps (xs @ ys) = sleeps xs @ sleeps ys"
  by (induction xs rule: sleeps.induct) auto
lemma prints_append: "prints (xs @ ys) = prints xs @ prints ys"
  by (induction xs rule: prints.induct) auto

lemma snd_prepend: "snd (prepend evs p) = evs @ snd p"
  by (cases p) simp
lemma fst_prepend: "fst (prepend evs p) = fst p"
  by (cases p) simp

lemma download_loop_done: "\<not> attempt < m \<Longrightarrow> download_loop net jit m attempt = (None, [])"
  by (simp add: download_loop.simps)

lemma download_loop_success:
  "attempt < m \<Longrightarrow> net attempt = Response 200 c \<Longrightarrow> c \<noteq> [] \<Longrightarrow>
   download_loop net jit m attempt = (Some c, [Get attempt])"
  by (subst download_loop.simps) simp

lemma download_loop_other:
  "attempt < m \<Longrightarrow> net attempt = OtherException \<Longrightarrow>
   download_loop net jit m attempt = (None, [Get attempt, Print ErrorDownloadingMsg])"
  by (subst download_loop.simps) simp

lemma download_loop_generic:
  "attempt < m \<Longrightarrow> net attempt = Response s c \<Longrightarrow> \<not> (s = 200 \<and> length c > 0) \<Longrightarrow> s \<noteq> 429 \<Longrightarrow>
   download_loop net jit m attempt =
     prepend [Get attempt, Print (HttpStatusMsg s)] (download_loop net jit m (attempt + 1))"
  by (subst download_loop.simps) auto

lemma download_loop_429:
  "attempt < m \<Longrightarrow> net attempt = Response 429 c \<Longrightarrow>
   download_loop net jit m attempt =
     prepend [Get attempt, Print (RateLimitedMsg (wait_time jit attempt) (attempt + 1) m),
              Sleep (wait_time jit attempt)] (download_loop net jit m (attempt + 1))"
  by (subst download_loop.simps) simp

lemma download_loop_neterr:
  "attempt < m \<Longrightarrow> is_network_error (net attempt) \<Longrightarrow>
   download_loop net jit m attempt =
     prepend ([Get attempt, Print (NetworkErrorMsg (attempt + 1) m (wait_time jit attempt))]
              @ (if attempt + 1 < m then [Sleep (wait_time jit attempt)] else []))
       (download_loop net jit m (attempt + 1))"
  by (subst download_loop.simps) (cases "net attempt"; simp)

lemma trace_ok_stop:
  assumes "attempt < m" "\<not> waits_at net m attempt"
    "gets (snd (download_loop net jit m attempt)) = [attempt]"
    "sleeps (snd (download_loop net jit m attempt)) = []"
  shows "trace_ok net jit m attempt"
  unfolding trace_ok_def using assms by (intro exI[of _ 1]) simp

lemma trace_ok_cont:
  assumes lt: "attempt < m"
    and eq: "download_loop net jit m attempt = prepend (Get attempt # evs) (download_loop net jit m (attempt + 1))"
    and g: "gets evs = []"
    and s: "sleeps evs = (if waits_at net m attempt then [wait_time jit attempt] else [])"
    and ih: "trace_ok net jit m (attempt + 1)"
  shows "trace_ok net jit m attempt"
proof -
  from ih obtain n where n: "n \<le> m - (attempt + 1)"
      "gets (snd (download_loop net jit m (attempt + 1))) = [attempt + 1 ..< attempt + 1 + n]"
      "sleeps (snd (download_loop net jit m (attempt + 1))) =
          map (wait_time jit) (filter (waits_at net m) [attempt + 1 ..< attempt + 1 + n])"
    unfolding trace_ok_def by blast
  have u: "[attempt ..< attempt + (n + 1)] = attempt # [attempt + 1 ..< attempt + 1 + n]"
    by (simp add: upt_conv_Cons)
  have "gets (snd (download_loop net jit m attempt)) = [attempt ..< attempt + (n + 1)]"
    unfolding u using eq g n(2) by (simp add: snd_prepend gets_append)
  moreover have "sleeps (snd (download_loop net jit m attempt)) =
        map (wait_time jit) (filter (waits_at net m) [attempt ..< attempt + (n + 1)])"
    unfolding u using eq s n(3) by (simp add: snd_prepend sleeps_append)
  moreover have "n + 1 \<le> m - attempt" using n(1) lt by simp
  ultimately show ?thesis unfolding trace_ok_def by blast
qed

lemma trace_download_loop: "trace_ok net jit m attempt"
proof (induction "m - attempt" arbitrary: attempt)
  case 0
  then have "download_loop net jit m attempt = (None, [])" by (simp add: download_loop_done)
  then show ?case unfolding trace_ok_def by (intro exI[of _ 0]) simp
next
  case (Suc d)
  then have lt: "attempt < m" by simp
  from Suc have "d = m - (attempt + 1)" by simp
  then have ih: "trace_ok net jit m (attempt + 1)" by (rule Suc.hyps(1))
  show ?case
  proof (cases "net attempt")
    case (Response s c)
    consider "s = 200 \<and> c \<noteq> []" | "\<not> (s = 200 \<and> c \<noteq> [])" "s = 429" | "\<not> (s = 200 \<and> c \<noteq> [])" "s \<noteq> 429" by blast
    then show ?thesis
    proof cases
      case 1
      then show ?thesis using download_loop_success[OF lt, of net c jit] Response
        by (intro trace_ok_stop[OF lt]) (simp_all add: waits_at_def)
    next
      case 2
      have e: "download_loop net jit m attempt =
          prepend [Get attempt, Print (RateLimitedMsg (wait_time jit attempt) (attempt + 1) m),
              Sleep (wait_time jit attempt)] (download_loop net jit m (attempt + 1))"
        using download_loop_429[of attempt m net c jit] lt Response 2 by simp
      show ?thesis
        by (rule trace_ok_cont[OF lt e _ _ ih])
           (use Response 2 in \<open>simp_all add: waits_at_def\<close>)
    next
      case 3
      have e: "download_loop net jit m attempt =
          prepend [Get attempt, Print (HttpStatusMsg s)] (download_loop net jit m (attempt + 1))"
        using download_loop_generic[of attempt m net s c jit] lt Response 3 by simp
      show ?thesis
        by (rule trace_ok_cont[OF lt e _ _ ih])
           (use Response 3 in \<open>simp_all add: waits_at_def\<close>)
    qed
  next
    case Timeout
    show ?thesis
      by (rule trace_ok_cont[OF lt _ _ _ ih, of "Print (NetworkErrorMsg (attempt + 1) m (wait_time jit attempt)) # (if attempt + 1 < m then [Sleep (wait_time jit attempt)] else [])"])
         (use Timeout download_loop_neterr[OF lt, of net jit] in \<open>simp_all add: waits_at_def\<close>)
  next
    case ConnectionError
    show ?thesis
      by (rule trace_ok_cont[OF lt _ _ _ ih, of "Print (NetworkErrorMsg (attempt + 1) m (wait_time jit attempt)) # (if attempt + 1 < m then [Sleep (wait_time jit attempt)] else [])"])
         (use ConnectionError download_loop_neterr[OF lt, of net jit] in \<open>simp_all add: waits_at_def\<close>)
  next
    case OtherException
    then show ?thesis using download_loop_other[of attempt m net jit] lt
      by (intro trace_ok_stop[OF lt]) (simp_all add: waits_at_def)
  qed
qed


lemma download_loop_retryable:
  assumes "\<forall>k. attempt \<le> k \<and> k < m \<longrightarrow> is_rate_limited (net k) \<or> is_network_error (net k)"
  shows "fst (download_loop net jit m attempt) = None \<and>
         length (gets (snd (download_loop net jit m attempt))) = m - attempt"
  using assms
proof (induction "m - attempt" arbitrary: attempt)
  case 0
  then show ?case by (simp add: download_loop_done)
next
  case (Suc d)
  then have lt: "attempt < m" by simp
  from Suc have "d = m - (attempt + 1)" by simp
  then have ih: "fst (download_loop net jit m (attempt + 1)) = None \<and>
         length (gets (snd (download_loop net jit m (attempt + 1)))) = m - (attempt + 1)"
    using Suc.prems by (intro Suc.hyps(1)) auto
  from Suc.prems lt have r: "is_rate_limited (net attempt) \<or> is_network_error (net attempt)" by simp
  show ?case
  proof (cases "net attempt")
    case (Response s c)
    with r have "s = 429" "\<not> (s = 200 \<and> c \<noteq> [])" by auto
    then have "download_loop net jit m attempt =
          prepend [Get attempt, Print (RateLimitedMsg (wait_time jit attempt) (attempt + 1) m),
              Sleep (wait_time jit attempt)] (download_loop net jit m (attempt + 1))"
      using download_loop_429[of attempt m net c jit] lt Response by simp
    then show ?thesis using ih lt by (simp add: fst_prepend snd_prepend gets_append)
  next
    case Timeout
    then show ?thesis using download_loop_neterr[of attempt m net jit] ih lt
      by (auto simp add: fst_prepend snd_prepend gets_append)
  next
    case ConnectionError
    then show ?thesis using download_loop_neterr[of attempt m net jit] ih lt
      by (auto simp add: fst_prepend snd_prepend gets_append)
  next
    case OtherException
    with r show ?thesis by simp
  qed
qed

lemma download_loop_Some:
  "fst (download_loop net jit m attempt) = Some p \<Longrightarrow>
   p \<noteq> [] \<and> (\<exists>k. attempt \<le> k \<and> k < m \<and> net k = Response 200 p)"
proof (induction "m - attempt" arbitrary: attempt)
  case 0
  then show ?case by (simp add: download_loop_done)
next
  case (Suc d)
  then have lt: "attempt < m" by simp
  from Suc have d: "d = m - (attempt + 1)" by simp
  have ih: "fst (download_loop net jit m (attempt + 1)) = Some p \<Longrightarrow>
     p \<noteq> [] \<and> (\<exists>k. attempt \<le> k \<and> k < m \<and> net k = Response 200 p)"
  proof -
    assume "fst (download_loop net jit m (attempt + 1)) = Some p"
    from Suc.hyps(1)[OF d this] obtain k where k: "p \<noteq> []" "attempt + 1 \<le> k" "k < m" "net k = Response 200 p"
      by blast
    then have "attempt \<le> k" by simp
    with k show ?thesis by blast
  qed
  show ?case
  proof (cases "net attempt")
    case (Response s c)
    consider "s = 200 \<and> c \<noteq> []" | "\<not> (s = 200 \<and> c \<noteq> [])" "s = 429" | "\<not> (s = 200 \<and> c \<noteq> [])" "s \<noteq> 429" by blast
    then show ?thesis
    proof cases
      case 1
      then have "download_loop net jit m attempt = (Some c, [Get attempt])"
        using download_loop_success[of attempt m net c jit] lt Response by simp
      with Suc.prems 1 Response lt show ?thesis by auto
    next
      case 2
      then have "fst (download_loop net jit m attempt) = fst (download_loop net jit m (attempt + 1))"
        using download_loop_429[of attempt m net c jit] lt Response by (simp add: fst_prepend)
      with Suc.prems ih show ?thesis by simp
    next
      case 3
      then have "fst (download_loop net jit m attempt) = fst (download_loop net jit m (attempt + 1))"
        using download_loop_generic[of attempt m net s c jit] lt Response by (simp add: fst_prepend)
      with Suc.prems ih show ?thesis by simp
    qed
  next
    case Timeout
    then have "fst (download_loop net jit m attempt) = fst (download_loop net jit m (attempt + 1))"
      using download_loop_neterr[of attempt m net jit] lt by (simp add: fst_prepend)
    with Suc.prems ih show ?thesis by simp
  next
    case ConnectionError
    then have "fst (download_loop net jit m attempt) = fst (download_loop net jit m (attempt + 1))"
      using download_loop_neterr[of attempt m net jit] lt by (simp add: fst_prepend)
    with Suc.prems ih show ?thesis by simp
  next
    case OtherException
    then show ?thesis using download_loop_other[of attempt m net jit] lt Suc.prems by simp
  qed
qed

lemma download_loop_empty_200:
  assumes "\<forall>k. attempt \<le> k \<and> k < m \<longrightarrow> net k = Response 200 []"
  shows "download_loop net jit m attempt =
           (None, concat (map (\<lambda>k. [Get k, Print (HttpStatusMsg 200)]) [attempt ..< m]))"
  using assms
proof (induction "m - attempt" arbitrary: attempt)
  case 0
  then show ?case by (simp add: download_loop_done)
next
  case (Suc d)
  then have lt: "attempt < m" by simp
  from Suc have "d = m - (attempt + 1)" by simp
  then have ih: "download_loop net jit m (attempt + 1) =
           (None, concat (map (\<lambda>k. [Get k, Print (HttpStatusMsg 200)]) [attempt + 1 ..< m]))"
    using Suc.prems by (intro Suc.hyps(1)) auto
  from Suc.prems lt have "net attempt = Response 200 []" by simp
  then have "download_loop net jit m attempt =
      prepend [Get attempt, Print (HttpStatusMsg 200)] (download_loop net jit m (attempt + 1))"
    using download_loop_generic[of attempt m net 200 "[]" jit] lt by simp
  then show ?case using ih lt by (simp add: upt_conv_Cons)
qed

text \<open>
  Claim C2. The specification lets a status that is neither 200 nor 429 end the fetch
  after a single attempt. In the source the \<open>else\<close> branch only prints
  \<open>HTTP {status_code} ...\<close>; it has no \<open>break\<close> and no \<open>return\<close>, so the \<open>for\<close>
  loop goes on to the next attempt, without any sleep. Against an endpoint that always
  answers 404 the worker, with the default \<open>max_retries = 5\<close>, issues five GETs, prints
  the status five times and returns \<open>None\<close>.
\<close>

theorem download_404_retries:
  "download_wms_tile (\<lambda>_. Response 404 []) jit 5 =
     (None, [Get 0, Print (HttpStatusMsg 404), Get 1, Print (HttpStatusMsg 404),
             Get 2, Print (HttpStatusMsg 404), Get 3, Print (HttpStatusMsg 404),
             Get 4, Print (HttpStatusMsg 404)])"
  by (simp add: download_wms_tile_def download_loop.simps)


text \<open>
  Claim C7, as stated, fails. With five timeouts in a row and \<open>max_retries = 5\<close> the
  worker makes five attempts, each a retryable failure, and sleeps four times
  (1, 2, 4 and 8 seconds with zero jitter): after the last attempt the guard
  \<open>if attempt < max_retries - 1\<close> skips the sleep. No value of the cap makes the
  specification's list of waits equal to the one the code produces.
\<close>

theorem download_wait_counterexample:
  "\<not> (\<exists>cap. sleeps (snd (download_wms_tile (\<lambda>_. Timeout) (\<lambda>_. 0) 5)) =
        spec_waits cap (\<lambda>_. Timeout) (\<lambda>_. 0) (gets (snd (download_wms_tile (\<lambda>_. Timeout) (\<lambda>_. 0) 5))))"
proof -
  have "download_wms_tile (\<lambda>_. Timeout) (\<lambda>_. 0) 5 =
     (None, [Get 0, Print (NetworkErrorMsg 1 5 1), Sleep 1, Get 1, Print (NetworkErrorMsg 2 5 2), Sleep 2,
             Get 2, Print (NetworkErrorMsg 3 5 4), Sleep 4, Get 3, Print (NetworkErrorMsg 4 5 8), Sleep 8,
             Get 4, Print (NetworkErrorMsg 5 5 16)])"
    by (simp add: download_wms_tile_def download_loop.simps wait_time_def)
  then show ?thesis by (simp add: spec_waits_def)
qed


text \<open>
  Claim C7, amended. For every network behaviour, jitter sequence and \<open>max_retries\<close>:
  the worker makes at most \<open>max_retries\<close> attempts, numbered consecutively from 0; it
  sleeps exactly once after each attempt that ended in a 429, and once after each attempt
  that ended in a network error other than the last possible attempt; the sleep after
  attempt \<open>k\<close> lasts \<open>2 ^ k + jitter\<close>, with no cap; and when every attempt is such a
  retryable failure, it makes exactly \<open>max_retries\<close> attempts and returns no payload.
\<close>

theorem download_wait_policy:
  "length (gets (snd (download_wms_tile net jit m))) \<le> m \<and>
   gets (snd (download_wms_tile net jit m)) = [0 ..< length (gets (snd (download_wms_tile net jit m)))] \<and>
   sleeps (snd (download_wms_tile net jit m)) =
     map (\<lambda>k. 2 ^ k + jit k)
       (filter (\<lambda>k. is_rate_limited (net k) \<or> (is_network_error (net k) \<and> k + 1 < m))
          [0 ..< length (gets (snd (download_wms_tile net jit m)))]) \<and>
   ((\<forall>k<m. is_rate_limited (net k) \<or> is_network_error (net k)) \<longrightarrow>
      fst (download_wms_tile net jit m) = None \<and>
      length (gets (snd (download_wms_tile net jit m))) = m)"
proof -
  from trace_download_loop[of net jit m 0]
  obtain n where n: "n \<le> m" "gets (snd (download_loop net jit m 0)) = [0 ..< n]"
    "sleeps (snd (download_loop net jit m 0)) = map (wait_time jit) (filter (waits_at net m) [0 ..< n])"
    unfolding trace_ok_def by auto
  have w: "wait_time jit = (\<lambda>k. 2 ^ k + jit k)" by (simp add: wait_time_def fun_eq_iff)
  have f: "waits_at net m = (\<lambda>k. is_rate_limited (net k) \<or> (is_network_error (net k) \<and> k + 1 < m))"
    by (simp add: waits_at_def fun_eq_iff)
  have r: "(\<forall>k<m. is_rate_limited (net k) \<or> is_network_error (net k)) \<longrightarrow>
      fst (download_loop net jit m 0) = None \<and> length (gets (snd (download_loop net jit m 0))) = m"
    using download_loop_retryable[of 0 m net jit] by simp
  show ?thesis unfolding download_wms_tile_def using n r by (simp add: w f)
qed

theorem download_wait_policy_witness:
  "fst (download_wms_tile (\<lambda>_. Response 429 []) (\<lambda>_. 1 / 2) 3) = None \<and>
   gets (snd (download_wms_tile (\<lambda>_. Response 429 []) (\<lambda>_. 1 / 2) 3)) = [0, 1, 2] \<and>
   sleeps (snd (download_wms_tile (\<lambda>_. Response 429 []) (\<lambda>_. 1 / 2) 3)) = [3 / 2, 5 / 2, 9 / 2]"
  using download_wait_policy [of "\<lambda>_. Response 429 []" "\<lambda>_. 1 / 2" 3]
  by (simp add: download_wms_tile_def download_loop.simps wait_time_def)


text \<open>
  Claim C10. A 200 response with an empty body is not a success: at an attempt \<open>k\<close>
  that receives it, the worker prints \<open>HTTP 200 ...\<close> (the generic branch) and goes on
  with attempt \<open>k + 1\<close>. A payload is returned only if it is non-empty and some attempt
  below \<open>max_retries\<close> received it with status 200. When every attempt receives an empty
  200 response, all \<open>max_retries\<close> attempts are made and the result is \<open>None\<close>.
\<close>

theorem download_empty_200:
  "(k < m \<and> net k = Response 200 [] \<longrightarrow>
      download_loop net jit m k =
        prepend [Get k, Print (HttpStatusMsg 200)] (download_loop net jit m (k + 1))) \<and>
   (fst (download_wms_tile net jit m) = Some p \<longrightarrow>
      p \<noteq> [] \<and> (\<exists>k<m. net k = Response 200 p)) \<and>
   ((\<forall>k<m. net k = Response 200 []) \<longrightarrow>
      download_wms_tile net jit m =
        (None, concat (map (\<lambda>k. [Get k, Print (HttpStatusMsg 200)]) [0 ..< m])))"
proof (intro conjI impI)
  assume "k < m \<and> net k = Response 200 []"
  then show "download_loop net jit m k =
        prepend [Get k, Print (HttpStatusMsg 200)] (download_loop net jit m (k + 1))"
    using download_loop_generic[of k m net 200 "[]" jit] by simp
next
  assume "fst (download_wms_tile net jit m) = Some p"
  then show "p \<noteq> []" using download_loop_Some[of net jit m 0 p] by (simp add: download_wms_tile_def)
next
  assume "fst (download_wms_tile net jit m) = Some p"
  then show "\<exists>k<m. net k = Response 200 p"
    using download_loop_Some[of net jit m 0 p] by (auto simp add: download_wms_tile_def)
next
  assume "\<forall>k<m. net k = Response 200 []"
  then show "download_wms_tile net jit m =
        (None, concat (map (\<lambda>k. [Get k, Print (HttpStatusMsg 200)]) [0 ..< m]))"
    using download_loop_empty_200[of 0 m net jit] by (simp add: download_wms_tile_def)
qed

theorem download_empty_200_witness:
  "download_loop (\<lambda>_. Response 200 []) (\<lambda>_. 0) 2 0 =
     prepend [Get 0, Print (HttpStatusMsg 200)] (download_loop (\<lambda>_. Response 200 []) (\<lambda>_. 0) 2 (0 + 1)) \<and>
   download_wms_tile (\<lambda>_. Response 200 []) (\<lambda>_. 0) 2 =
     (None, [Get 0, Print (HttpStatusMsg 200), Get 1, Print (HttpStatusMsg 200)]) \<and>
   fst (download_wms_tile (\<lambda>k. if k = 1 then Response 200 [7] else Response 200 []) (\<lambda>_. 0) 2) = Some [7]"
  using download_empty_200 [of 0 2 "\<lambda>_. Response 200 []" "\<lambda>_. 0" "[7]"]
    download_empty_200 [of 0 2 "\<lambda>k. if k = 1 then Response 200 [7] else Response 200 []" "\<lambda>_. 0" "[7]"]
  by (simp add: download_wms_tile_def download_loop.simps)

section \<open>Properties of the coordinate engine and the bounds policy\<close>

text \<open>
  Claim C5. The bounds tier depends on the zoom level alone: zoom levels 1 to 9 use the
  wide bounds, every other zoom level (0 and below, 10 and above) the narrow bounds, and
  the two tiers differ. \<open>tile_rect\<close> takes its bounds from \<open>current_bounds\<close> only.
\<close>

theorem current_bounds_policy:
  "(1 \<le> zoom \<and> zoom \<le> 9 \<longrightarrow> current_bounds zoom = wide_bounds) \<and>
   (zoom \<le> 0 \<or> 10 \<le> zoom \<longrightarrow> current_bounds zoom = narrow_bounds) \<and>
   wide_bounds \<noteq> narrow_bounds"
  by (auto simp add: current_bounds_def wide_bounds_def narrow_bounds_def)

theorem current_bounds_policy_witness:
  "current_bounds 5 = wide_bounds \<and> current_bounds 12 = narrow_bounds \<and>
   current_bounds 0 = narrow_bounds \<and> current_bounds 1 = wide_bounds \<and>
   current_bounds 9 = wide_bounds \<and> current_bounds 10 = narrow_bounds"
  using current_bounds_policy [of 5] current_bounds_policy [of 12] current_bounds_policy [of 0]
    current_bounds_policy [of 1] current_bounds_policy [of 9] current_bounds_policy [of 10]
  by simp



lemma deg2num_float_ideal:
  "deg2num_float ideal_fpu (Fin lat_deg) (Fin lon_deg) (int zoom) = Inr (deg2num lat_deg lon_deg zoom)"
  by (simp add: deg2num_float_def ideal_fpu_def x_value_def y_value_def deg2num_def Let_def)





section \<open>Properties of the tile archive\<close>

lemma fst_download_Some_nonempty:
  "fst (download_wms_tile net jit m) = Some p \<Longrightarrow> p \<noteq> []"
  using download_loop_Some[of net jit m 0 p] by (simp add: download_wms_tile_def)

lemma execute_insert_tile_new:
  "schema w \<Longrightarrow> key_of r \<notin> keys w \<Longrightarrow> execute_insert_tile w r = Inr (w\<lparr>tiles := tiles w @ [r]\<rparr>)"
  by (simp add: execute_insert_tile_def)

lemma execute_insert_tile_dup:
  "schema w \<Longrightarrow> key_of r \<in> keys w \<Longrightarrow> execute_insert_tile w r = Inl IntegrityError"
  by (simp add: execute_insert_tile_def)

lemma keys_append: "keys (w\<lparr>tiles := tiles w @ [r]\<rparr>) = insert (key_of r) (keys w)"
  by (simp add: keys_def)

lemma drain_queue_ok:
  assumes "schema (working c)" "distinct (map key_of (tiles (working c)))"
  shows "\<exists>c' dups. drain_queue c q = (None, c', dups) \<and>
           committed c' = committed c \<and>
           schema (working c') \<and> metadata (working c') = metadata (working c) \<and>
           (\<exists>new. tiles (working c') = tiles (working c) @ new \<and> set new \<subseteq> set q) \<and>
           distinct (map key_of (tiles (working c'))) \<and>
           keys (working c') = keys (working c) \<union> key_of ` set q \<and>
           set dups \<subseteq> key_of ` set q \<and>
           length (tiles (working c')) + length dups = length (tiles (working c)) + length q \<and>
           (\<forall>r \<in> set q. key_of r \<in> keys (working c) \<longrightarrow> key_of r \<in> set dups)"
  using assms
proof (induction q arbitrary: c)
  case Nil
  then show ?case by simp
next
  case (Cons r q)
  show ?case
  proof (cases "key_of r \<in> keys (working c)")
    case True
    from Cons.IH[OF Cons.prems] obtain c' dups new where
      d: "drain_queue c q = (None, c', dups)" "committed c' = committed c"
         "schema (working c')" "metadata (working c') = metadata (working c)"
         "tiles (working c') = tiles (working c) @ new" "set new \<subseteq> set q"
         "distinct (map key_of (tiles (working c')))"
         "keys (working c') = keys (working c) \<union> key_of ` set q"
         "set dups \<subseteq> key_of ` set q"
         "\<forall>r \<in> set q. key_of r \<in> keys (working c) \<longrightarrow> key_of r \<in> set dups"
         "length (tiles (working c')) + length dups = length (tiles (working c)) + length q"
      by blast
    have e: "drain_queue c (r # q) = (None, c', key_of r # dups)"
      using True Cons.prems(1) d(1) by (simp add: execute_insert_tile_dup)
    have "\<exists>new. tiles (working c') = tiles (working c) @ new \<and> set new \<subseteq> set (r # q)"
      using d(5,6) by auto
    moreover have "keys (working c') = keys (working c) \<union> key_of ` set (r # q)"
      using d(8) True by auto
    moreover have "set (key_of r # dups) \<subseteq> key_of ` set (r # q)" using d(9) by auto
    moreover have "\<forall>r' \<in> set (r # q). key_of r' \<in> keys (working c) \<longrightarrow> key_of r' \<in> set (key_of r # dups)"
      using d(10) by auto
    moreover have "length (tiles (working c')) + length (key_of r # dups) = length (tiles (working c)) + length (r # q)"
      using d(11) by simp
    ultimately show ?thesis using e d(2,3,4,7) by blast
  next
    case False
    let ?c1 = "c\<lparr>working := (working c)\<lparr>tiles := tiles (working c) @ [r]\<rparr>\<rparr>"
    have s1: "schema (working ?c1)" using Cons.prems(1) by simp
    have d1: "distinct (map key_of (tiles (working ?c1)))"
      using Cons.prems(2) False by (simp add: keys_def)
    from Cons.IH[OF s1 d1] obtain c' dups new where
      d: "drain_queue ?c1 q = (None, c', dups)" "committed c' = committed ?c1"
         "schema (working c')" "metadata (working c') = metadata (working ?c1)"
         "tiles (working c') = tiles (working ?c1) @ new" "set new \<subseteq> set q"
         "distinct (map key_of (tiles (working c')))"
         "keys (working c') = keys (working ?c1) \<union> key_of ` set q"
         "set dups \<subseteq> key_of ` set q"
         "\<forall>r \<in> set q. key_of r \<in> keys (working ?c1) \<longrightarrow> key_of r \<in> set dups"
         "length (tiles (working c')) + length dups = length (tiles (working ?c1)) + length q"
      by blast
    have e: "drain_queue c (r # q) = (None, c', dups)"
      using False Cons.prems(1) d(1) by (simp add: execute_insert_tile_new)
    have "tiles (working c') = tiles (working c) @ (r # new)" using d(5) by simp
    moreover have "set (r # new) \<subseteq> set (r # q)" using d(6) by auto
    ultimately have "\<exists>new. tiles (working c') = tiles (working c) @ new \<and> set new \<subseteq> set (r # q)"
      by blast
    moreover have "keys (working c') = keys (working c) \<union> key_of ` set (r # q)"
      using d(8) by (simp add: keys_def)
    moreover have "set dups \<subseteq> key_of ` set (r # q)" using d(9) by auto
    moreover have "\<forall>r' \<in> set (r # q). key_of r' \<in> keys (working c) \<longrightarrow> key_of r' \<in> set dups"
      using d(10) False by (auto simp add: keys_def)
    moreover have "committed c' = committed c" "metadata (working c') = metadata (working c)"
      using d(2,4) by simp_all
    moreover have "length (tiles (working c')) + length dups = length (tiles (working c)) + length (r # q)"
      using d(11) by simp
    ultimately show ?thesis using e d(3,7) by blast
  qed
qed


lemma count_key_distinct:
  "distinct (map f xs) \<Longrightarrow> x \<in> set xs \<Longrightarrow> length (filter (\<lambda>y. f y = f x) xs) = 1"
proof (induction xs)
  case Nil
  then show ?case by simp
next
  case (Cons a xs)
  show ?case
  proof (cases "f a = f x")
    case True
    with Cons.prems(1) have "\<forall>y \<in> set xs. f y \<noteq> f x" by (auto simp add: image_iff)
    then have "filter (\<lambda>y. f y = f x) xs = []" by (simp add: filter_empty_conv)
    with True show ?thesis by simp
  next
    case False
    with Cons show ?thesis by auto
  qed
qed

lemma drain_queue_error: "fst (drain_queue c q) = None \<or> fst (drain_queue c q) = Some OperationalError"
proof (induction q arbitrary: c)
  case Nil
  then show ?case by simp
next
  case (Cons r q)
  show ?case
  proof (cases "execute_insert_tile (working c) r")
    case (Inr w)
    then show ?thesis using Cons.IH[of "c\<lparr>working := w\<rparr>"] by simp
  next
    case (Inl e)
    then have "e = OperationalError \<or> e = IntegrityError"
      by (auto simp add: execute_insert_tile_def split: if_splits)
    then show ?thesis using Inl Cons.IH[of c] by (auto split: prod.splits)
  qed
qed

lemma pool_loop_error:
  "fst (pool_loop worker ts n s c) = None \<or> fst (pool_loop worker ts n s c) = Some OperationalError"
proof (induction ts arbitrary: n s c)
  case Nil
  then show ?case by simp
next
  case (Cons t ts)
  obtain ok queued tr where w: "worker t = (ok, queued, tr)" by (cases "worker t") auto
  obtain e c' dups where d: "drain_queue c queued = (e, c', dups)" by (cases "drain_queue c queued") auto
  show ?case
  proof (cases e)
    case None
    then show ?thesis using w d
        Cons.IH[of "n + 1" "if ok then s + 1 else s" "if (n + 1) mod 10 = 0 then commit c' else c'"]
      by (auto split: prod.splits)
  next
    case (Some err)
    then have "err = OperationalError" using drain_queue_error[of c queued] d by simp
    then show ?thesis using w d Some by simp
  qed
qed

lemma build_tile_list_error: "build_tile_list c z k cs = Inl e \<Longrightarrow> e = OperationalError"
proof (induction cs)
  case Nil
  then show ?case by simp
next
  case (Cons a cs)
  obtain x y where a: "a = (x, y)" by (cases a) auto
  from Cons show ?case unfolding a
    by (auto simp add: tile_exists_def Let_def split: sum.splits if_splits prod.splits)
qed

lemma process_zoom_error:
  "fst (process_zoom net jit sched k z st) = None \<or>
   fst (process_zoom net jit sched k z st) = Some OperationalError"
proof (cases "build_tile_list (connection st) z k (cells (tile_rect z))")
  case (Inl e)
  then show ?thesis using build_tile_list_error[OF Inl] by (simp add: process_zoom_def)
next
  case (Inr p)
  obtain tl ec where p: "p = (tl, ec)" by (cases p) auto
  show ?thesis
    using Inr p pool_loop_error[of "download_tile_worker net jit" "sched tl" 0 0 "connection st"]
    by (auto simp add: process_zoom_def split: prod.splits)
qed

lemma zoom_loop_error:
  "fst (zoom_loop net jit sched k zs st) \<noteq> Some IntegrityError"
proof (induction zs arbitrary: st)
  case Nil
  then show ?case by simp
next
  case (Cons z zs)
  show ?case
  proof (cases "z < 0")
    case True
    then show ?thesis by simp
  next
    case False
    obtain e st' where p: "process_zoom net jit sched k (nat z) st = (e, st')"
      by (cases "process_zoom net jit sched k (nat z) st") auto
    then have "e = None \<or> e = Some OperationalError"
      using process_zoom_error[of net jit sched k "nat z" st] by simp
    then show ?thesis using False p Cons.IH[of st'] by auto
  qed
qed

text \<open>
  Claim C6. A write whose key is already in the archive changes nothing, is logged as
  a duplicate, and the drain goes on with the rest of the queue. On an archive with the
  schema and one record per key, draining any queue (also one that holds the same
  coordinate twice) raises no error, leaves one record per key, adds exactly the new
  keys, and every write either adds a record or is logged. No run of the orchestrator
  ends in \<open>IntegrityError\<close>.
\<close>

theorem duplicate_write_benign:
  "(schema (working c) \<and> key_of r \<in> keys (working c) \<longrightarrow>
      drain_queue c (r # q) =
        (case drain_queue c q of (e, c', dups) \<Rightarrow> (e, c', key_of r # dups))) \<and>
   (schema (working c) \<and> distinct (map key_of (tiles (working c))) \<longrightarrow>
      (\<exists>c' dups. drain_queue c q = (None, c', dups) \<and>
         distinct (map key_of (tiles (working c'))) \<and>
         keys (working c') = keys (working c) \<union> key_of ` set q \<and>
         length (tiles (working c')) + length dups = length (tiles (working c)) + length q \<and>
         (\<forall>r' \<in> set q. key_of r' \<in> keys (working c) \<longrightarrow> key_of r' \<in> set dups) \<and>
         (\<forall>r' \<in> set (tiles (working c')).
            length (filter (\<lambda>s. key_of s = key_of r') (tiles (working c'))) = 1))) \<and>
   raised (create_nationalmap_mbtiles net jit sched file auth_key min_zoom max_zoom)
     \<noteq> Some IntegrityError"
proof (intro conjI impI)
  assume "schema (working c) \<and> key_of r \<in> keys (working c)"
  then show "drain_queue c (r # q) =
        (case drain_queue c q of (e, c', dups) \<Rightarrow> (e, c', key_of r # dups))"
    by (simp add: execute_insert_tile_dup)
next
  assume a: "schema (working c) \<and> distinct (map key_of (tiles (working c)))"
  from drain_queue_ok[of c q] a obtain c' dups where
    d: "drain_queue c q = (None, c', dups)"
       "distinct (map key_of (tiles (working c')))"
       "keys (working c') = keys (working c) \<union> key_of ` set q"
       "length (tiles (working c')) + length dups = length (tiles (working c)) + length q"
       "\<forall>r' \<in> set q. key_of r' \<in> keys (working c) \<longrightarrow> key_of r' \<in> set dups"
    by blast
  have "\<forall>r' \<in> set (tiles (working c')).
            length (filter (\<lambda>s. key_of s = key_of r') (tiles (working c'))) = 1"
    using count_key_distinct[OF d(2)] by blast
  with d show "\<exists>c' dups. drain_queue c q = (None, c', dups) \<and>
         distinct (map key_of (tiles (working c'))) \<and>
         keys (working c') = keys (working c) \<union> key_of ` set q \<and>
         length (tiles (working c')) + length dups = length (tiles (working c)) + length q \<and>
         (\<forall>r' \<in> set q. key_of r' \<in> keys (working c) \<longrightarrow> key_of r' \<in> set dups) \<and>
         (\<forall>r' \<in> set (tiles (working c')).
            length (filter (\<lambda>s. key_of s = key_of r') (tiles (working c'))) = 1)"
    by blast
next
  show "raised (create_nationalmap_mbtiles net jit sched file auth_key min_zoom max_zoom)
     \<noteq> Some IntegrityError"
    using zoom_loop_error[of net jit sched auth_key "[min_zoom..max_zoom]"
        "\<lparr>connection = open_archive file min_zoom max_zoom, fetched = [],
              duplicates = [], total_tiles_processed = 0\<rparr>"]
    by (auto simp add: create_nationalmap_mbtiles_def split: prod.splits)
qed

theorem duplicate_write_benign_witness:
  "drain_queue race_conn [(3, 1, 2, [7]), (3, 5, 5, [1]), (3, 5, 5, [2])] =
     (None,
      race_conn\<lparr>working := \<lparr>schema = True, metadata = [],
                              tiles = [(3, 1, 2, [9]), (3, 5, 5, [1])]\<rparr>\<rparr>,
      [(3, 1, 2), (3, 5, 5)])"
  using duplicate_write_benign [of race_conn "(3, 1, 2, [7])" "[(3, 5, 5, [1]), (3, 5, 5, [2])]"]
    duplicate_write_benign [of race_conn _ "[(3, 1, 2, [7]), (3, 5, 5, [1]), (3, 5, 5, [2])]"]
  by (simp add: race_conn_def execute_insert_tile_def keys_def)

text \<open>
  Claim C4. The stored row is \<open>(2 ^ zoom - 1) - y\<close>. The worker applies the inversion
  once, when it queues a fetched tile, and the queue is inserted as it is; \<open>tile_exists\<close>
  applies it once to the row it is asked about, so a tile written for \<open>(zoom, x, y)\<close> is
  found under \<open>(zoom, x, y)\<close>. The inversion is its own inverse and maps
  \<open>[0, 2 ^ zoom - 1]\<close> into itself.
\<close>

theorem tms_row_inversion:
  "tms_y zoom y = (2 ^ zoom - 1) - y \<and>
   tms_y zoom (tms_y zoom y) = y \<and>
   (0 \<le> y \<and> y \<le> 2 ^ zoom - 1 \<longrightarrow> 0 \<le> tms_y zoom y \<and> tms_y zoom y \<le> 2 ^ zoom - 1) \<and>
   (fst (download_wms_tile (net (zoom, x, y, key)) (jit (zoom, x, y, key)) 5) = Some tile_data \<longrightarrow>
      fst (snd (download_tile_worker net jit (zoom, x, y, key))) =
        [(zoom, x, (2 ^ zoom - 1) - y, tile_data)]) \<and>
   (schema (working c) \<longrightarrow>
      tile_exists c zoom x y = Inr ((zoom, x, (2 ^ zoom - 1) - y) \<in> keys (working c))) \<and>
   (schema (working c) \<and> (zoom, x, (2 ^ zoom - 1) - y) \<notin> keys (working c) \<longrightarrow>
      (\<exists>c'. drain_queue c [(zoom, x, (2 ^ zoom - 1) - y, tile_data)] = (None, c', []) \<and>
            tiles (working c') = tiles (working c) @ [(zoom, x, (2 ^ zoom - 1) - y, tile_data)] \<and>
            tile_exists c' zoom x y = Inr True))"
proof (intro conjI impI)
  show "tms_y zoom y = (2 ^ zoom - 1) - y" by (simp add: tms_y_def)
  show "tms_y zoom (tms_y zoom y) = y" by (simp add: tms_y_def)
next
  assume "0 \<le> y \<and> y \<le> 2 ^ zoom - 1"
  then show "0 \<le> tms_y zoom y" "tms_y zoom y \<le> 2 ^ zoom - 1" by (simp_all add: tms_y_def)
next
  assume a: "fst (download_wms_tile (net (zoom, x, y, key)) (jit (zoom, x, y, key)) 5) = Some tile_data"
  then have "tile_data \<noteq> []" by (rule fst_download_Some_nonempty)
  with a show "fst (snd (download_tile_worker net jit (zoom, x, y, key))) =
        [(zoom, x, (2 ^ zoom - 1) - y, tile_data)]"
    by (cases "download_wms_tile (net (zoom, x, y, key)) (jit (zoom, x, y, key)) 5")
       (simp add: download_tile_worker_def tms_y_def)
next
  assume "schema (working c)"
  then show "tile_exists c zoom x y = Inr ((zoom, x, (2 ^ zoom - 1) - y) \<in> keys (working c))"
    by (simp add: tile_exists_def tms_y_def)
next
  assume a: "schema (working c) \<and> (zoom, x, (2 ^ zoom - 1) - y) \<notin> keys (working c)"
  let ?r = "(zoom, x, (2 ^ zoom - 1) - y, tile_data)"
  let ?c = "c\<lparr>working := (working c)\<lparr>tiles := tiles (working c) @ [?r]\<rparr>\<rparr>"
  have "drain_queue c [?r] = (None, ?c, [])"
    using a by (simp add: execute_insert_tile_def)
  moreover have "tile_exists ?c zoom x y = Inr True"
    using a by (simp add: tile_exists_def tms_y_def keys_def)
  ultimately show "\<exists>c'. drain_queue c [?r] = (None, c', []) \<and>
            tiles (working c') = tiles (working c) @ [?r] \<and>
            tile_exists c' zoom x y = Inr True"
    by (intro exI[of _ ?c]) simp
qed

theorem tms_row_inversion_witness:
  "tms_y 3 2 = 5 \<and> tms_y 3 5 = 2 \<and>
   download_tile_worker (\<lambda>_ _. Response 200 [7]) (\<lambda>_ _. 0) (3, 1, 2, ''k'')
     = (True, [(3, 1, 5, [7])], [Get 0]) \<and>
   tile_exists race_conn 3 1 5 = Inr True \<and>
   tile_exists race_conn 3 1 2 = Inr False \<and>
   drain_queue race_conn [(3, 1, 5, [7])] =
     (None, race_conn\<lparr>working := \<lparr>schema = True, metadata = [],
                                    tiles = [(3, 1, 2, [9]), (3, 1, 5, [7])]\<rparr>\<rparr>, [])"
  using tms_row_inversion [of 3 2 "\<lambda>_ _. Response 200 [7]" 1 "''k''" "\<lambda>_ _. 0" "[7]" race_conn]
    tms_row_inversion [of 3 5 "\<lambda>_ _. Response 200 [7]" 1 "''k''" "\<lambda>_ _. 0" "[7]" race_conn]
  by (simp add: race_conn_def tms_y_def download_tile_worker_def download_wms_tile_def
      download_loop.simps tile_exists_def keys_def execute_insert_tile_def)

section \<open>Invariants of a run\<close>





lemma extends_refl: "extends d d"
  by (simp add: extends_def)

lemma extends_trans:
  assumes "extends a b" "extends b c"
  shows "extends a c"
proof -
  from assms(1) obtain n1 where n1: "tiles b = tiles a @ n1" "key_of ` set n1 \<inter> keys a = {}"
    by (auto simp add: extends_def)
  from assms(2) obtain n2 where n2: "tiles c = tiles b @ n2" "key_of ` set n2 \<inter> keys b = {}"
    by (auto simp add: extends_def)
  have "keys a \<subseteq> keys b" using n1(1) by (auto simp add: keys_def)
  then have "key_of ` set (n1 @ n2) \<inter> keys a = {}" using n1(2) n2(2) by auto
  moreover have "tiles c = tiles a @ (n1 @ n2)" using n1(1) n2(1) by simp
  ultimately have "\<exists>new. tiles c = tiles a @ new \<and> key_of ` set new \<inter> keys a = {}" by blast
  then show ?thesis using assms by (simp add: extends_def)
qed

lemma extends_keys: "extends d d' \<Longrightarrow> keys d \<subseteq> keys d'"
  by (auto simp add: extends_def keys_def)

lemma extends_insert:
  "key_of r \<notin> keys w \<Longrightarrow> extends w (w\<lparr>tiles := tiles w @ [r]\<rparr>)"
  by (auto simp add: extends_def keys_def)

lemma drain_queue_inv:
  "drain_queue c q = (e, c', dups) \<Longrightarrow> committed c' = committed c \<and> extends (working c) (working c')"
proof (induction q arbitrary: c e c' dups)
  case Nil
  then show ?case by (simp add: extends_refl)
next
  case (Cons r q)
  show ?case
  proof (cases "execute_insert_tile (working c) r")
    case (Inr w)
    then have w: "w = (working c)\<lparr>tiles := tiles (working c) @ [r]\<rparr>" "key_of r \<notin> keys (working c)"
      by (auto simp add: execute_insert_tile_def split: if_splits)
    from Cons.prems Inr have "drain_queue (c\<lparr>working := w\<rparr>) q = (e, c', dups)" by simp
    from Cons.IH[OF this] have "committed c' = committed c" "extends w (working c')" by simp_all
    moreover have "extends (working c) w" unfolding w(1) by (rule extends_insert[OF w(2)])
    ultimately show ?thesis using extends_trans by blast
  next
    case (Inl err)
    show ?thesis
    proof (cases "err = IntegrityError")
      case True
      obtain e1 c1 d1 where d: "drain_queue c q = (e1, c1, d1)" by (cases "drain_queue c q") auto
      with Cons.prems Inl True have "c' = c1" by simp
      with Cons.IH[OF d] show ?thesis by simp
    next
      case False
      with Cons.prems Inl have "c' = c" by (cases err) simp_all
      then show ?thesis by (simp add: extends_refl)
    qed
  qed
qed


lemma conn_inv_commit: "conn_inv d c \<Longrightarrow> conn_inv d (commit c)"
  by (simp add: conn_inv_def commit_def)

lemma conn_inv_drain:
  "conn_inv d c \<Longrightarrow> drain_queue c q = (e, c', dups) \<Longrightarrow> conn_inv d c'"
  using drain_queue_inv[of c q e c' dups] extends_trans[of d "working c" "working c'"]
  by (simp add: conn_inv_def)

lemma pool_loop_inv:
  "conn_inv d c \<Longrightarrow> pool_loop worker ts n s c = (e, c', s', dups) \<Longrightarrow> conn_inv d c'"
proof (induction ts arbitrary: n s c e c' s' dups)
  case Nil
  then show ?case by simp
next
  case (Cons t ts)
  obtain ok queued tr where w: "worker t = (ok, queued, tr)" by (cases "worker t") auto
  obtain e1 c1 d1 where d: "drain_queue c queued = (e1, c1, d1)" by (cases "drain_queue c queued") auto
  have i1: "conn_inv d c1" by (rule conn_inv_drain[OF Cons.prems(1) d])
  show ?case
  proof (cases e1)
    case (Some err)
    with Cons.prems(2) w d have "c' = c1" by simp
    with i1 show ?thesis by simp
  next
    case None
    let ?c2 = "if (n + 1) mod 10 = 0 then commit c1 else c1"
    have i2: "conn_inv d ?c2" using i1 by (simp add: conn_inv_commit)
    obtain e2 c2 s2 d2 where p: "pool_loop worker ts (n + 1) (if ok then s + 1 else s) ?c2 = (e2, c2, s2, d2)"
      by (cases "pool_loop worker ts (n + 1) (if ok then s + 1 else s) ?c2") auto
    with Cons.prems(2) w d None have "c' = c2" by simp
    with Cons.IH[OF i2 p] show ?thesis by simp
  qed
qed

lemma pool_loop_Nil_iff: "ts \<noteq> [] \<or> pool_loop worker ts n s c = (None, c, s, [])"
  by (cases ts) simp_all

lemma build_tile_list_eq:
  "build_tile_list c z k cs = Inr (wl, n) \<Longrightarrow>
     wl = map (\<lambda>(x, y). (z, x, y, k)) (filter (\<lambda>(x, y). (z, x, tms_y z y) \<notin> keys (working c)) cs) \<and>
     n = length (filter (\<lambda>(x, y). (z, x, tms_y z y) \<in> keys (working c)) cs)"
proof (induction cs arbitrary: wl n)
  case Nil
  then show ?case by simp
next
  case (Cons a cs)
  obtain x y where a: "a = (x, y)" by (cases a) auto
  from Cons.prems obtain ex where ex: "tile_exists c z x y = Inr ex"
    unfolding a by (auto split: sum.splits)
  then have exv: "ex = ((z, x, tms_y z y) \<in> keys (working c))"
    by (auto simp add: tile_exists_def Let_def split: if_splits)
  from Cons.prems ex obtain wl' n' where r: "build_tile_list c z k cs = Inr (wl', n')"
    unfolding a by (auto split: sum.splits)
  from Cons.IH[OF r] Cons.prems ex r exv show ?case unfolding a by (auto split: if_splits)
qed

lemma build_tile_list_schema:
  "schema (working c) \<Longrightarrow>
   build_tile_list c z k cs =
     Inr (map (\<lambda>(x, y). (z, x, y, k)) (filter (\<lambda>(x, y). (z, x, tms_y z y) \<notin> keys (working c)) cs),
          length (filter (\<lambda>(x, y). (z, x, tms_y z y) \<in> keys (working c)) cs))"
proof (induction cs)
  case Nil
  then show ?case by simp
next
  case (Cons a cs)
  obtain x y where a: "a = (x, y)" by (cases a) auto
  from Cons show ?case unfolding a by (simp add: tile_exists_def Let_def)
qed



lemma step_ok_refl: "conn_inv d (connection st) \<Longrightarrow> step_ok d st st"
  by (simp add: step_ok_def)

lemma step_ok_trans:
  assumes "step_ok d a b" "step_ok d b c"
  shows "step_ok d a c"
proof -
  from assms(1) obtain n1 where n1: "fetched b = fetched a @ n1"
      "\<forall>p \<in> set n1. key_of_args (fst p) \<notin> keys d" "n1 = [] \<longrightarrow> connection b = connection a"
    by (auto simp add: step_ok_def)
  from assms(2) obtain n2 where n2: "fetched c = fetched b @ n2"
      "\<forall>p \<in> set n2. key_of_args (fst p) \<notin> keys d" "n2 = [] \<longrightarrow> connection c = connection b"
    by (auto simp add: step_ok_def)
  have "fetched c = fetched a @ (n1 @ n2)" using n1(1) n2(1) by simp
  moreover have "\<forall>p \<in> set (n1 @ n2). key_of_args (fst p) \<notin> keys d" using n1(2) n2(2) by auto
  moreover have "n1 @ n2 = [] \<longrightarrow> connection c = connection a" using n1(3) n2(3) by simp
  ultimately show ?thesis using assms(2) unfolding step_ok_def by blast
qed

lemma process_zoom_step:
  assumes inv: "conn_inv d (connection st)"
    and p: "process_zoom net jit sched k z st = (e, st')"
  shows "step_ok d st st'"
proof (cases "build_tile_list (connection st) z k (cells (tile_rect z))")
  case (Inl err)
  with p have "st' = st" by (simp add: process_zoom_def)
  then show ?thesis using inv by (simp add: step_ok_refl)
next
  case (Inr q)
  obtain wl ec where q: "q = (wl, ec)" by (cases q) auto
  show ?thesis
  proof (cases "wl = []")
    case True
    with p Inr q have "st' = st" by (simp add: process_zoom_def)
    then show ?thesis using inv by (simp add: step_ok_refl)
  next
    case False
    obtain e1 c1 s1 d1 where pl:
      "pool_loop (download_tile_worker net jit) (sched wl) 0 0 (connection st) = (e1, c1, s1, d1)"
      by (cases "pool_loop (download_tile_worker net jit) (sched wl) 0 0 (connection st)") auto
    let ?new = "map (\<lambda>t. (t, snd (snd (download_tile_worker net jit t)))) wl"
    from p Inr q False pl have st': "connection st' = c1" "fetched st' = fetched st @ ?new"
      by (auto simp add: process_zoom_def)
    have i: "conn_inv d c1" by (rule pool_loop_inv[OF inv pl])
    have wl: "wl = map (\<lambda>(x, y). (z, x, y, k))
        (filter (\<lambda>(x, y). (z, x, tms_y z y) \<notin> keys (working (connection st))) (cells (tile_rect z)))"
      using build_tile_list_eq[of "connection st" z k "cells (tile_rect z)" wl ec] Inr q by simp
    have sub: "keys d \<subseteq> keys (working (connection st))"
      using inv extends_keys by (simp add: conn_inv_def)
    have "\<forall>t \<in> set wl. key_of_args t \<notin> keys d"
    proof
      fix t assume "t \<in> set wl"
      then obtain x y where "t = (z, x, y, k)" "(z, x, tms_y z y) \<notin> keys (working (connection st))"
        by (subst (asm) wl) auto
      then show "key_of_args t \<notin> keys d" using sub by (auto simp add: key_of_args_def)
    qed
    then have "\<forall>p \<in> set ?new. key_of_args (fst p) \<notin> keys d" by auto
    moreover have "?new \<noteq> []" using False by simp
    ultimately show ?thesis unfolding step_ok_def using i st' by blast
  qed
qed

lemma zoom_loop_step:
  "conn_inv d (connection st) \<Longrightarrow> zoom_loop net jit sched k zs st = (e, st') \<Longrightarrow> step_ok d st st'"
proof (induction zs arbitrary: st e st')
  case Nil
  then show ?case by (simp add: step_ok_refl)
next
  case (Cons z zs)
  show ?case
  proof (cases "z < 0")
    case True
    with Cons.prems show ?thesis by (simp add: step_ok_refl)
  next
    case False
    obtain e1 st1 where p: "process_zoom net jit sched k (nat z) st = (e1, st1)"
      by (cases "process_zoom net jit sched k (nat z) st") auto
    have s1: "step_ok d st st1" by (rule process_zoom_step[OF Cons.prems(1) p])
    show ?thesis
    proof (cases e1)
      case (Some err)
      with Cons.prems(2) False p have "st' = st1" by simp
      with s1 show ?thesis by simp
    next
      case None
      with Cons.prems(2) False p have z: "zoom_loop net jit sched k zs st1 = (e, st')" by simp
      have "conn_inv d (connection st1)" using s1 by (simp add: step_ok_def)
      from Cons.IH[OF this z] s1 show ?thesis using step_ok_trans by blast
    qed
  qed
qed

lemma open_archive_Some: "open_archive (Some d) lo hi = \<lparr>committed = d, working = d\<rparr>"
  by (simp add: open_archive_def connect_def)

lemma open_archive_None:
  "open_archive None lo hi =
     \<lparr>committed = \<lparr>schema = True, metadata = [], tiles = []\<rparr>,
      working = \<lparr>schema = True, metadata = metadata_rows lo hi, tiles = []\<rparr>\<rparr>"
  by (simp add: open_archive_def connect_def create_schema_def insert_metadata_def empty_db_def)

lemma run_resumed:
  "extends d (archive (create_nationalmap_mbtiles net jit sched (Some d) k lo hi)) \<and>
   (\<forall>p \<in> set (fetches (create_nationalmap_mbtiles net jit sched (Some d) k lo hi)).
      key_of_args (fst p) \<notin> keys d) \<and>
   (fetches (create_nationalmap_mbtiles net jit sched (Some d) k lo hi) = [] \<longrightarrow>
      archive (create_nationalmap_mbtiles net jit sched (Some d) k lo hi) = d)"
proof -
  let ?r = "create_nationalmap_mbtiles net jit sched (Some d) k lo hi"
  let ?st0 = "\<lparr>connection = open_archive (Some d) lo hi, fetched = [],
              duplicates = [], total_tiles_processed = 0\<rparr>"
  obtain e st where z: "zoom_loop net jit sched k [lo..hi] ?st0 = (e, st)"
    by (cases "zoom_loop net jit sched k [lo..hi] ?st0") auto
  have r: "archive ?r = committed (connection st)" "fetches ?r = fetched st"
    using z by (simp_all add: create_nationalmap_mbtiles_def close_def)
  have "conn_inv d (connection ?st0)"
    by (simp add: open_archive_Some conn_inv_def extends_refl)
  from zoom_loop_step[OF this z] have s: "step_ok d ?st0 st" .
  then have "extends d (archive ?r)" by (simp add: r step_ok_def conn_inv_def)
  moreover from s have "\<forall>p \<in> set (fetches ?r). key_of_args (fst p) \<notin> keys d"
    by (auto simp add: r step_ok_def)
  moreover from s have "fetches ?r = [] \<longrightarrow> archive ?r = d"
    by (auto simp add: r step_ok_def open_archive_Some)
  ultimately show ?thesis by blast
qed

lemma extends_row_count: "extends d d' \<Longrightarrow> row_count d z \<le> row_count d' z"
  by (auto simp add: extends_def row_count_def)



section \<open>The tile rectangles of zoom levels 0 and 4\<close>



lemma arsinh_real_mono: "x \<le> y \<Longrightarrow> arsinh x \<le> arsinh (y::real)"
  using arsinh_less_iff_real[of y x] by (simp add: linorder_not_less[symmetric] del: arsinh_less_iff_real)

lemma merc_mono:
  assumes "- 90 < a" "a \<le> b" "b < 90"
  shows "merc a \<le> merc b"
proof -
  have "(- 90) * (pi / 180) < a * (pi / 180)"
    using assms(1) by (intro mult_strict_right_mono) simp_all
  then have 1: "- (pi / 2) < a * pi / 180" by simp
  have "a * (pi / 180) \<le> b * (pi / 180)"
    using assms(2) by (intro mult_right_mono) simp_all
  then have 2: "a * pi / 180 \<le> b * pi / 180" by simp
  have "b * (pi / 180) < 90 * (pi / 180)"
    using assms(3) by (intro mult_strict_right_mono) simp_all
  then have 3: "b * pi / 180 < pi / 2" by simp
  from 1 2 3 have "tan (a * pi / 180) \<le> tan (b * pi / 180)" by (rule tan_mono_le)
  then show ?thesis unfolding merc_def by (rule arsinh_real_mono)
qed

lemma merc_0: "merc 0 = 0"
  by (simp add: merc_def)

lemma merc_nonpos: "- 90 < a \<Longrightarrow> a \<le> 0 \<Longrightarrow> merc a \<le> 0"
  using merc_mono[of a 0] by (simp add: merc_0)

lemma arsinh_1_less_pi: "arsinh (1::real) < pi"
proof -
  have "sqrt 2 < (2::real)" by (rule real_less_lsqrt) simp_all
  have "arsinh (1::real) = ln (1 + sqrt 2)" by (simp add: arsinh_real_def add.commute)
  also have "\<dots> \<le> sqrt 2" by (rule ln_add_one_self_le_self) simp
  also have "\<dots> < 2" by fact
  also have "\<dots> \<le> pi" by (rule pi_ge_two)
  finally show ?thesis .
qed

lemma merc_minus_45: "merc (- 45) = - arsinh 1"
proof -
  have "(- 45) * pi / 180 = - (pi / 4)" by simp
  then show ?thesis by (simp add: merc_def tan_45)
qed

lemma merc_gt: "- 45 \<le> a \<Longrightarrow> a < 90 \<Longrightarrow> - pi < merc a"
  using merc_mono[of "- 45" a] merc_minus_45 arsinh_1_less_pi by simp


lemma deg2num_row: "snd (deg2num lat lon z) = py_int (row_val lat z)"
  by (simp add: deg2num_def Let_def row_val_def merc_def)

lemma deg2num_col: "fst (deg2num lat lon z) = py_int ((lon + 180) / 360 * 2 ^ z)"
  by (simp add: deg2num_def Let_def)

lemma row_val_lower: "merc a \<le> 0 \<Longrightarrow> 2 ^ z / 2 \<le> row_val a z"
proof -
  assume "merc a \<le> 0"
  then have "merc a / pi \<le> 0" using pi_gt_zero by (simp add: divide_le_0_iff)
  then have "1 / 2 \<le> (1 - merc a / pi) / 2" by simp
  then have "1 / 2 * 2 ^ z \<le> (1 - merc a / pi) / 2 * 2 ^ z"
    by (rule mult_right_mono) simp
  then show ?thesis by (simp add: row_val_def)
qed

lemma row_val_upper: "- pi < merc a \<Longrightarrow> row_val a z < 2 ^ z"
proof -
  assume "- pi < merc a"
  then have "- 1 < merc a / pi" using pi_gt_zero by (simp add: less_divide_eq)
  then have "(1 - merc a / pi) / 2 < 1" by simp
  then have "(1 - merc a / pi) / 2 * 2 ^ z < 1 * 2 ^ z"
    by (rule mult_strict_right_mono) simp
  then show ?thesis by (simp add: row_val_def)
qed

lemma row_val_antimono: "merc a \<le> merc b \<Longrightarrow> row_val b z \<le> row_val a z"
proof -
  assume "merc a \<le> merc b"
  then have "merc a / pi \<le> merc b / pi" using pi_gt_zero by (simp add: divide_right_mono)
  then have "1 - merc b / pi \<le> 1 - merc a / pi" by (rule diff_left_mono)
  then have "(1 - merc b / pi) / 2 \<le> (1 - merc a / pi) / 2" by (rule divide_right_mono) simp
  then have "(1 - merc b / pi) / 2 * 2 ^ z \<le> (1 - merc a / pi) / 2 * 2 ^ z"
    by (rule mult_right_mono) simp
  then show ?thesis by (simp add: row_val_def)
qed

lemma py_int_nonneg: "0 \<le> r \<Longrightarrow> py_int r = \<lfloor>r\<rfloor>"
  by (simp add: py_int_def)

lemma tile_rect_0: "tile_rect 0 = (0, 0, 0, 0)"
proof -
  have cb: "current_bounds (int 0) = narrow_bounds" by (simp add: current_bounds_def)
  have m1: "merc (- 47.5) \<le> 0" by (rule merc_nonpos) simp_all
  have m2: "merc (- 34) \<le> 0" by (rule merc_nonpos) simp_all
  have m3: "- pi < merc (- 34)" by (rule merc_gt) simp_all
  have "0 \<le> row_val (- 47.5) 0" using row_val_lower[OF m1, of 0] by simp
  then have y1: "0 \<le> py_int (row_val (- 47.5) 0)" by (simp add: py_int_nonneg)
  have "1 / 2 \<le> row_val (- 34) 0" "row_val (- 34) 0 < 1"
    using row_val_lower[OF m2, of 0] row_val_upper[OF m3, of 0] by simp_all
  then have y2: "py_int (row_val (- 34) 0) = 0" by (simp add: py_int_nonneg floor_eq_iff)
  have x1: "py_int ((166 + 180) / 360 * 2 ^ 0) = 0" by (simp add: py_int_def)
  have x2: "py_int ((179 + 180) / 360 * 2 ^ 0) = 0" by (simp add: py_int_def)
  have d1: "deg2num (- 47.5) 166 0 = (0, py_int (row_val (- 47.5) 0))"
    using deg2num_row[of "- 47.5" 166 0] deg2num_col[of "- 47.5" 166 0] x1 by (simp add: prod_eq_iff)
  have d2: "deg2num (- 34) 179 0 = (0, 0)"
    using deg2num_row[of "- 34" 179 0] deg2num_col[of "- 34" 179 0] x2 y2 by (simp add: prod_eq_iff)
  show ?thesis
    unfolding tile_rect_def cb using d1 d2 y1 by (simp add: narrow_bounds_def)
qed

lemma tile_rect_4: "\<exists>a b. tile_rect 4 = (0, 15, a, b) \<and> 0 \<le> a \<and> a \<le> b \<and> b \<le> 15"
proof -
  have cb: "current_bounds (int 4) = wide_bounds" by (simp add: current_bounds_def)
  have mm: "merc (- 56.33) \<le> merc (- 25.19)" by (rule merc_mono) simp_all
  have m2: "merc (- 25.19) \<le> 0" by (rule merc_nonpos) simp_all
  have m3: "- pi < merc (- 25.19)" by (rule merc_gt) simp_all
  let ?lo = "py_int (row_val (- 25.19) 4)" and ?hi = "py_int (row_val (- 56.33) 4)"
  have b: "8 \<le> row_val (- 25.19) 4" "row_val (- 25.19) 4 < 16"
    using row_val_lower[OF m2, of 4] row_val_upper[OF m3, of 4] by simp_all
  have le: "row_val (- 25.19) 4 \<le> row_val (- 56.33) 4" by (rule row_val_antimono[OF mm])
  have lo: "?lo = \<lfloor>row_val (- 25.19) 4\<rfloor>" using b by (simp add: py_int_nonneg)
  have hi: "?hi = \<lfloor>row_val (- 56.33) 4\<rfloor>" using b le by (simp add: py_int_nonneg)
  have lo0: "0 \<le> ?lo" "?lo \<le> 15" using b unfolding lo by (simp_all add: le_floor_iff floor_le_iff)
  have lohi: "?lo \<le> ?hi" unfolding lo hi using le by (rule floor_mono)
  have x1: "py_int ((- 180 + 180) / 360 * 2 ^ 4) = 0" by (simp add: py_int_def)
  have x2: "py_int ((180 + 180) / 360 * 2 ^ 4) = 16" by (simp add: py_int_def)
  have d1: "deg2num (- 56.33) (- 180) 4 = (0, ?hi)"
    using deg2num_row[of "- 56.33" "- 180" 4] deg2num_col[of "- 56.33" "- 180" 4] x1
    by (simp add: prod_eq_iff)
  have d2: "deg2num (- 25.19) 180 4 = (16, ?lo)"
    using deg2num_row[of "- 25.19" 180 4] deg2num_col[of "- 25.19" 180 4] x2
    by (simp add: prod_eq_iff)
  have "tile_rect 4 = (0, 15, ?lo, min 15 ?hi)"
    unfolding tile_rect_def cb using d1 d2 lo0 by (simp add: wide_bounds_def)
  moreover have "?lo \<le> min 15 ?hi" using lo0 lohi by simp
  ultimately show ?thesis using lo0 by auto
qed



section \<open>Properties of whole runs\<close>


lemma worker_ok:
  "download_tile_worker (\<lambda>_ _. Response 200 [1]) (\<lambda>_ _. 0) (z, x, y, k)
     = (True, [(z, x, tms_y z y, [1])], [Get 0])"
  by (simp add: download_tile_worker_def download_wms_tile_def download_loop.simps)

lemma worker_fail:
  "download_tile_worker (\<lambda>_ _. OtherException) (\<lambda>_ _. 0) t
     = (False, [], [Get 0, Print ErrorDownloadingMsg])"
  by (cases t) (simp add: download_tile_worker_def download_wms_tile_def download_loop.simps)

lemma upto_single: "[i..i] = [i]"
  by (simp add: upto.simps)

text \<open>
  Claim C3. The specification has a final commit flushed before the archive is closed.
  The source commits only inside the loop, when \<open>pbar.n % 10 == 0\<close>, and ends with
  \<open>conn.close()\<close>, which does not commit. On a new archive with \<open>min_zoom = max_zoom = 0\<close>
  and a server that answers 200 with a payload, the single tile of zoom level 0 is
  fetched, inserted and counted (\<open>tiles_processed = 1\<close>), it is in the open transaction
  when the loop ends, and the archive file afterwards holds no tile record and no
  metadata row.
\<close>

theorem final_commit_missing:
  "create_nationalmap_mbtiles (\<lambda>_ _. Response 200 [1]) (\<lambda>_ _. 0) (\<lambda>ts. ts) None ''key'' 0 0 =
     \<lparr>raised = None,
      archive = \<lparr>schema = True, metadata = [], tiles = []\<rparr>,
      fetches = [((0, 0, 0, ''key''), [Get 0])],
      duplicate_log = [],
      tiles_processed = 1\<rparr> \<and>
   tiles (working (connection (snd (zoom_loop (\<lambda>_ _. Response 200 [1]) (\<lambda>_ _. 0) (\<lambda>ts. ts) ''key'' [0..0]
      \<lparr>connection = open_archive None 0 0, fetched = [], duplicates = [],
       total_tiles_processed = 0\<rparr>)))) = [(0, 0, 0, [1])]"
  by (simp add: create_nationalmap_mbtiles_def upto_single open_archive_None process_zoom_def
      tile_rect_0 cells_def tile_exists_def keys_def worker_ok execute_insert_tile_def
      tms_y_def close_def)




text \<open>
  Claim C9. When the archive file exists, the connection is opened on it as it is: no
  \<open>CREATE\<close> statement runs and no metadata row is written. Whatever the network does,
  the file after the run has the schema flag and the metadata it had, and its tile
  records are the earlier ones, in place, followed by new ones. Only when the file does
  not exist is the schema created and are the metadata rows inserted.
\<close>

theorem resume_keeps_archive:
  "open_archive (Some d) min_zoom max_zoom = \<lparr>committed = d, working = d\<rparr> \<and>
   schema (archive (create_nationalmap_mbtiles net jit sched (Some d) auth_key min_zoom max_zoom))
     = schema d \<and>
   metadata (archive (create_nationalmap_mbtiles net jit sched (Some d) auth_key min_zoom max_zoom))
     = metadata d \<and>
   (\<exists>new. tiles (archive (create_nationalmap_mbtiles net jit sched (Some d) auth_key min_zoom max_zoom))
     = tiles d @ new) \<and>
   open_archive None min_zoom max_zoom =
     \<lparr>committed = \<lparr>schema = True, metadata = [], tiles = []\<rparr>,
      working = \<lparr>schema = True, metadata = metadata_rows min_zoom max_zoom, tiles = []\<rparr>\<rparr>"
  using run_resumed[of d net jit sched auth_key min_zoom max_zoom]
  by (auto simp add: open_archive_Some open_archive_None extends_def)

theorem resume_keeps_archive_witness:
  "archive (create_nationalmap_mbtiles (\<lambda>_ _. Response 200 [1]) (\<lambda>_ _. 0) (\<lambda>ts. ts)
      (Some blank_db) ''key'' 0 0) = blank_db \<and>
   archive (create_nationalmap_mbtiles (\<lambda>_ _. Response 200 [1]) (\<lambda>_ _. 0) (\<lambda>ts. ts)
      (Some stored_db) ''key'' 0 0) = stored_db \<and>
   open_archive (Some stored_db) 0 0 = \<lparr>committed = stored_db, working = stored_db\<rparr>"
  using resume_keeps_archive [of stored_db 0 0 "\<lambda>_ _. Response 200 [1]" "\<lambda>_ _. 0" "\<lambda>ts. ts" "''key''"]
    resume_keeps_archive [of blank_db 0 0 "\<lambda>_ _. Response 200 [1]" "\<lambda>_ _. 0" "\<lambda>ts. ts" "''key''"]
  by (simp add: create_nationalmap_mbtiles_def upto_single open_archive_Some process_zoom_def
      tile_rect_0 cells_def tile_exists_def keys_def worker_ok execute_insert_tile_def
      tms_y_def close_def stored_db_def blank_db_def)

text \<open>
  Claim C1, amended. The work list of a zoom level is the list of cells whose record is
  not in the archive, in order, and the other cells are counted as existing. A second
  run on the archive that a first run left, with the same parameters, fetches no tile
  whose record is in that archive; it keeps the schema, the metadata and every tile
  record, adds records only for keys that were absent, so no zoom level loses a row; and
  when it fetches nothing the archive is the same afterwards. (When it fetches tiles that
  were absent, the row count of their zoom level may grow.)
\<close>

theorem resumability:
  "(schema (working c) \<longrightarrow>
      build_tile_list c zoom auth_key cs =
        Inr (map (\<lambda>(x, y). (zoom, x, y, auth_key))
               (filter (\<lambda>(x, y). (zoom, x, tms_y zoom y) \<notin> keys (working c)) cs),
             length (filter (\<lambda>(x, y). (zoom, x, tms_y zoom y) \<in> keys (working c)) cs))) \<and>
   (let r1 = create_nationalmap_mbtiles net1 jit1 sched1 file auth_key min_zoom max_zoom;
        r2 = create_nationalmap_mbtiles net2 jit2 sched2 (Some (archive r1)) auth_key min_zoom max_zoom
    in (\<forall>p \<in> set (fetches r2). key_of_args (fst p) \<notin> keys (archive r1)) \<and>
       schema (archive r2) = schema (archive r1) \<and>
       metadata (archive r2) = metadata (archive r1) \<and>
       (\<exists>new. tiles (archive r2) = tiles (archive r1) @ new \<and>
              key_of ` set new \<inter> keys (archive r1) = {}) \<and>
       (\<forall>z. row_count (archive r1) z \<le> row_count (archive r2) z) \<and>
       (fetches r2 = [] \<longrightarrow> archive r2 = archive r1))"
proof (intro conjI impI)
  assume "schema (working c)"
  then show "build_tile_list c zoom auth_key cs =
        Inr (map (\<lambda>(x, y). (zoom, x, y, auth_key))
               (filter (\<lambda>(x, y). (zoom, x, tms_y zoom y) \<notin> keys (working c)) cs),
             length (filter (\<lambda>(x, y). (zoom, x, tms_y zoom y) \<in> keys (working c)) cs))"
    by (rule build_tile_list_schema)
next
  let ?r1 = "create_nationalmap_mbtiles net1 jit1 sched1 file auth_key min_zoom max_zoom"
  let ?r2 = "create_nationalmap_mbtiles net2 jit2 sched2 (Some (archive ?r1)) auth_key min_zoom max_zoom"
  from run_resumed[of "archive ?r1" net2 jit2 sched2 auth_key min_zoom max_zoom]
  have e: "extends (archive ?r1) (archive ?r2)"
    and f: "\<forall>p \<in> set (fetches ?r2). key_of_args (fst p) \<notin> keys (archive ?r1)"
    and n: "fetches ?r2 = [] \<longrightarrow> archive ?r2 = archive ?r1"
    by blast+
  have "\<forall>z. row_count (archive ?r1) z \<le> row_count (archive ?r2) z"
    using extends_row_count[OF e] by blast
  with e f n show "let r1 = ?r1;
        r2 = create_nationalmap_mbtiles net2 jit2 sched2 (Some (archive r1)) auth_key min_zoom max_zoom
    in (\<forall>p \<in> set (fetches r2). key_of_args (fst p) \<notin> keys (archive r1)) \<and>
       schema (archive r2) = schema (archive r1) \<and>
       metadata (archive r2) = metadata (archive r1) \<and>
       (\<exists>new. tiles (archive r2) = tiles (archive r1) @ new \<and>
              key_of ` set new \<inter> keys (archive r1) = {}) \<and>
       (\<forall>z. row_count (archive r1) z \<le> row_count (archive r2) z) \<and>
       (fetches r2 = [] \<longrightarrow> archive r2 = archive r1)"
    by (simp add: Let_def extends_def)
qed

lemma run_0_fail_fresh:
  "create_nationalmap_mbtiles (\<lambda>_ _. OtherException) (\<lambda>_ _. 0) (\<lambda>ts. ts) None ''key'' 0 0 =
     \<lparr>raised = None, archive = blank_db,
      fetches = [((0, 0, 0, ''key''), [Get 0, Print ErrorDownloadingMsg])],
      duplicate_log = [], tiles_processed = 0\<rparr>"
  by (simp add: create_nationalmap_mbtiles_def upto_single open_archive_None process_zoom_def
      tile_rect_0 cells_def tile_exists_def keys_def worker_fail close_def blank_db_def)

lemma run_0_ok_blank:
  "create_nationalmap_mbtiles (\<lambda>_ _. Response 200 [1]) (\<lambda>_ _. 0) (\<lambda>ts. ts) (Some blank_db) ''key'' 0 0 =
     \<lparr>raised = None, archive = blank_db,
      fetches = [((0, 0, 0, ''key''), [Get 0])],
      duplicate_log = [], tiles_processed = 1\<rparr>"
  by (simp add: create_nationalmap_mbtiles_def upto_single open_archive_Some process_zoom_def
      tile_rect_0 cells_def tile_exists_def keys_def worker_ok execute_insert_tile_def
      tms_y_def close_def blank_db_def)

lemma run_0_stored:
  "create_nationalmap_mbtiles net jit sched (Some stored_db) ''key'' 0 0 =
     \<lparr>raised = None, archive = stored_db, fetches = [], duplicate_log = [], tiles_processed = 0\<rparr>"
  by (simp add: create_nationalmap_mbtiles_def upto_single open_archive_Some process_zoom_def
      tile_rect_0 cells_def tile_exists_def keys_def tms_y_def close_def stored_db_def)

lemma blank_db_absent: "key_of_args (0, 0, 0, ''key'') \<notin> keys blank_db"
  by (simp add: key_of_args_def keys_def blank_db_def)

lemma build_tile_list_stored:
  "build_tile_list \<lparr>committed = stored_db, working = stored_db\<rparr> 0 ''key'' [(0, 0)] = Inr ([], 1)"
  by (simp add: tile_exists_def keys_def stored_db_def tms_y_def)

theorem resumability_witness:
  "fetches (create_nationalmap_mbtiles (\<lambda>_ _. Response 200 [1]) (\<lambda>_ _. 0) (\<lambda>ts. ts)
      (Some (archive (create_nationalmap_mbtiles (\<lambda>_ _. OtherException) (\<lambda>_ _. 0) (\<lambda>ts. ts)
         None ''key'' 0 0))) ''key'' 0 0) = [((0, 0, 0, ''key''), [Get 0])] \<and>
   key_of_args (0, 0, 0, ''key'') \<notin> keys blank_db \<and>
   fetches (create_nationalmap_mbtiles (\<lambda>_ _. Response 200 [1]) (\<lambda>_ _. 0) (\<lambda>ts. ts)
      (Some (archive (create_nationalmap_mbtiles (\<lambda>_ _. Response 200 [1]) (\<lambda>_ _. 0) (\<lambda>ts. ts)
         (Some stored_db) ''key'' 0 0))) ''key'' 0 0) = [] \<and>
   archive (create_nationalmap_mbtiles (\<lambda>_ _. Response 200 [1]) (\<lambda>_ _. 0) (\<lambda>ts. ts)
      (Some (archive (create_nationalmap_mbtiles (\<lambda>_ _. Response 200 [1]) (\<lambda>_ _. 0) (\<lambda>ts. ts)
         (Some stored_db) ''key'' 0 0))) ''key'' 0 0) = stored_db \<and>
   build_tile_list \<lparr>committed = stored_db, working = stored_db\<rparr> 0 ''key'' [(0, 0)] = Inr ([], 1)"
  using resumability [of "\<lparr>committed = stored_db, working = stored_db\<rparr>" 0 "''key''" "[(0, 0)]"
      "\<lambda>_ _. OtherException" "\<lambda>_ _. 0" "\<lambda>ts. ts" None 0 0 "\<lambda>_ _. Response 200 [1]" "\<lambda>_ _. 0" "\<lambda>ts. ts"]
    resumability [of "\<lparr>committed = stored_db, working = stored_db\<rparr>" 0 "''key''" "[(0, 0)]"
      "\<lambda>_ _. Response 200 [1]" "\<lambda>_ _. 0" "\<lambda>ts. ts" "Some stored_db" 0 0 "\<lambda>_ _. Response 200 [1]" "\<lambda>_ _. 0" "\<lambda>ts. ts"]
  by (simp only: run_0_fail_fresh run_0_ok_blank run_0_stored blank_db_absent
      build_tile_list_stored run_result.simps simp_thms)




lemma drain_queue_schema: "schema (working c) \<Longrightarrow> fst (drain_queue c q) = None"
proof (induction q arbitrary: c)
  case Nil
  then show ?case by simp
next
  case (Cons r q)
  show ?case
  proof (cases "key_of r \<in> keys (working c)")
    case True
    then show ?thesis using Cons.prems Cons.IH[of c]
      by (cases "drain_queue c q") (simp add: execute_insert_tile_def)
  next
    case False
    then show ?thesis using Cons by (simp add: execute_insert_tile_def)
  qed
qed

lemma extends_tiles: "extends d d' \<Longrightarrow> set (tiles d) \<subseteq> set (tiles d')"
  by (auto simp add: extends_def)

lemma pool_loop_commits:
  assumes "schema (working c)" "n div 10 < (n + length ts) div 10"
    and "pool_loop worker ts n s c = (e, c', s', dups)"
  shows "set (tiles (working c)) \<subseteq> set (tiles (committed c'))"
  using assms
proof (induction ts arbitrary: n s c e c' s' dups)
  case Nil
  then show ?case by simp
next
  case (Cons t ts)
  obtain ok queued tr where w: "worker t = (ok, queued, tr)" by (cases "worker t") auto
  obtain e1 c1 d1 where d: "drain_queue c queued = (e1, c1, d1)" by (cases "drain_queue c queued") auto
  have e1: "e1 = None" using drain_queue_schema[OF Cons.prems(1), of queued] d by simp
  have x: "extends (working c) (working c1)" using drain_queue_inv[OF d] by simp
  then have s1: "schema (working c1)" using Cons.prems(1) by (simp add: extends_def)
  let ?c2 = "if (n + 1) mod 10 = 0 then commit c1 else c1"
  obtain e2 c2 s2 d2 where p: "pool_loop worker ts (n + 1) (if ok then s + 1 else s) ?c2 = (e2, c2, s2, d2)"
    by (cases "pool_loop worker ts (n + 1) (if ok then s + 1 else s) ?c2") auto
  from Cons.prems(3) w d e1 p have c': "c' = c2" by simp
  show ?case
  proof (cases "(n + 1) mod 10 = 0")
    case True
    then have "conn_inv (working c1) ?c2" by (simp add: conn_inv_def commit_def extends_refl)
    from pool_loop_inv[OF this p] have "extends (working c1) (committed c2)"
      by (simp add: conn_inv_def)
    with x have "extends (working c) (committed c2)" by (rule extends_trans)
    then show ?thesis unfolding c' by (rule extends_tiles)
  next
    case False
    then have "(n + 1) div 10 = n div 10" by presburger
    then have "(n + 1) div 10 < (n + 1 + length ts) div 10" using Cons.prems(2) by simp
    with Cons.IH[of ?c2 "n + 1" "if ok then s + 1 else s" e2 c2 s2 d2] s1 False p
    have "set (tiles (working c1)) \<subseteq> set (tiles (committed c2))" by simp
    with extends_tiles[OF x] show ?thesis unfolding c' by blast
  qed
qed


lemma pool_loop_blank:
  assumes "\<And>t. fst (snd (worker t)) = []" "blank_conn c"
    and "pool_loop worker ts n s c = (e, c', s', dups)"
  shows "blank_conn c'"
  using assms(2,3)
proof (induction ts arbitrary: n s c e c' s' dups)
  case Nil
  then show ?case by simp
next
  case (Cons t ts)
  obtain ok tr where w: "worker t = (ok, [], tr)" using assms(1)[of t] by (cases "worker t") auto
  let ?c2 = "if (n + 1) mod 10 = 0 then commit c else c"
  have b: "blank_conn ?c2" using Cons.prems(1) by (simp add: blank_conn_def commit_def)
  obtain e2 c2 s2 d2 where p: "pool_loop worker ts (n + 1) (if ok then s + 1 else s) ?c2 = (e2, c2, s2, d2)"
    by (cases "pool_loop worker ts (n + 1) (if ok then s + 1 else s) ?c2") auto
  from Cons.prems(2) w p have "c' = c2" by simp
  with Cons.IH[OF b p] show ?case by simp
qed

lemma length_cells:
  "length (cells (x0, x1, y0, y1)) = length [x0..x1] * length [y0..y1]"
proof -
  have "length (concat (map (\<lambda>x. map (\<lambda>y. (x, y)) ys) xs)) = length xs * length ys"
    for xs ys :: "int list"
    by (induction xs) simp_all
  then show ?thesis by (simp add: cells_def)
qed

lemma cells_4: "\<exists>x y rest. cells (tile_rect 4) = (x, y) # rest \<and> 9 \<le> length rest"
proof -
  from tile_rect_4 obtain a b where r: "tile_rect 4 = (0, 15, a, b)" "a \<le> b" by blast
  have "length (cells (tile_rect 4)) = 16 * nat (b - a + 1)"
    unfolding r(1) length_cells by simp
  moreover have "1 \<le> nat (b - a + 1)" using r(2) by simp
  ultimately have "10 \<le> length (cells (tile_rect 4))" by simp
  then show ?thesis by (cases "cells (tile_rect 4)") auto
qed

lemma first_run_blank:
  "schema (archive (create_nationalmap_mbtiles (\<lambda>_ _. OtherException) (\<lambda>_ _. 0) (\<lambda>ts. ts) None k 4 4)) \<and>
   tiles (archive (create_nationalmap_mbtiles (\<lambda>_ _. OtherException) (\<lambda>_ _. 0) (\<lambda>ts. ts) None k 4 4)) = []"
proof -
  let ?net = "\<lambda>(_::tile_args) (_::nat). OtherException" and ?jit = "\<lambda>(_::tile_args) (_::nat). 0::real"
  let ?st0 = "\<lparr>connection = open_archive None 4 4, fetched = [], duplicates = [],
               total_tiles_processed = 0\<rparr>"
  have b0: "blank_conn (connection ?st0)" by (simp add: open_archive_None blank_conn_def)
  obtain e st where p: "process_zoom ?net ?jit (\<lambda>ts. ts) k 4 ?st0 = (e, st)"
    by (cases "process_zoom ?net ?jit (\<lambda>ts. ts) k 4 ?st0") auto
  have b: "blank_conn (connection st)"
  proof (cases "build_tile_list (connection ?st0) 4 k (cells (tile_rect 4))")
    case (Inl err)
    with p have "st = ?st0" by (simp add: process_zoom_def)
    with b0 show ?thesis by simp
  next
    case (Inr q)
    obtain wl ec where q: "q = (wl, ec)" by (cases q) auto
    show ?thesis
    proof (cases "wl = []")
      case True
      with p Inr q have "st = ?st0" by (simp add: process_zoom_def)
      with b0 show ?thesis by simp
    next
      case False
      obtain e1 c1 s1 d1 where pl:
        "pool_loop (download_tile_worker ?net ?jit) wl 0 0 (connection ?st0) = (e1, c1, s1, d1)"
        by (cases "pool_loop (download_tile_worker ?net ?jit) wl 0 0 (connection ?st0)") auto
      from p Inr q False pl have "connection st = c1" by (auto simp add: process_zoom_def)
      moreover have "blank_conn c1"
        by (rule pool_loop_blank[OF _ b0 pl]) (simp add: worker_fail)
      ultimately show ?thesis by simp
    qed
  qed
  have "archive (create_nationalmap_mbtiles ?net ?jit (\<lambda>ts. ts) None k 4 4) = committed (connection st)"
    using p by (cases e) (simp_all add: create_nationalmap_mbtiles_def upto_single close_def)
  with b show ?thesis by (simp add: blank_conn_def)
qed

lemma second_run_commits:
  assumes "schema d" "tiles d = []"
  shows "\<exists>r. r \<in> set (tiles (archive (create_nationalmap_mbtiles (\<lambda>_ _. Response 200 [1]) (\<lambda>_ _. 0)
            (\<lambda>ts. ts) (Some d) k 4 4))) \<and> fst r = 4"
proof -
  let ?net = "\<lambda>(_::tile_args) (_::nat). Response 200 [1]" and ?jit = "\<lambda>(_::tile_args) (_::nat). 0::real"
  let ?c0 = "\<lparr>committed = d, working = d\<rparr>"
  let ?st0 = "\<lparr>connection = ?c0, fetched = [], duplicates = [], total_tiles_processed = 0\<rparr>"
  from cells_4 obtain x y rest where cs: "cells (tile_rect 4) = (x, y) # rest" "9 \<le> length rest"
    by blast
  let ?wl = "map (\<lambda>(x, y). (4, x, y, k)) rest"
  have k0: "keys d = {}" using assms(2) by (simp add: keys_def)
  have bl: "build_tile_list ?c0 4 k (cells (tile_rect 4)) = Inr ((4, x, y, k) # ?wl, 0)"
    using build_tile_list_schema[of ?c0 4 k "cells (tile_rect 4)"] assms(1) k0 cs(1) by simp
  let ?row = "(4, x, tms_y 4 y, [1])"
  let ?c1 = "?c0\<lparr>working := d\<lparr>tiles := tiles d @ [?row]\<rparr>\<rparr>"
  obtain e2 c2 s2 d2 where pl: "pool_loop (download_tile_worker ?net ?jit) ?wl 1 1 ?c1 = (e2, c2, s2, d2)"
    by (cases "pool_loop (download_tile_worker ?net ?jit) ?wl 1 1 ?c1") auto
  have "(1::nat) div 10 < (1 + length ?wl) div 10" using cs(2) by simp
  from pool_loop_commits[OF _ this pl] assms(1)
  have "set (tiles (working ?c1)) \<subseteq> set (tiles (committed c2))" by simp
  then have in2: "?row \<in> set (tiles (committed c2))" by auto
  have "pool_loop (download_tile_worker ?net ?jit) ((4, x, y, k) # ?wl) 0 0 ?c0 = (e2, c2, s2, d2 )"
    using pl assms(1) k0 by (simp add: worker_ok execute_insert_tile_def)
  then have "committed (connection (snd (process_zoom ?net ?jit (\<lambda>ts. ts) k 4 ?st0))) = committed c2"
    using bl by (simp add: process_zoom_def)
  then have "archive (create_nationalmap_mbtiles ?net ?jit (\<lambda>ts. ts) (Some d) k 4 4) = committed c2"
    by (cases "process_zoom ?net ?jit (\<lambda>ts. ts) k 4 ?st0")
       (auto simp add: create_nationalmap_mbtiles_def upto_single open_archive_Some close_def
          split: option.splits)
  with in2 show ?thesis by (intro exI[of _ ?row]) simp
qed

text \<open>
  Claim C1, as stated, fails. First run on a new archive, zoom level 4 only, every fetch
  raising an exception: the archive afterwards has the schema and no tile record. Second
  run with the same parameters and a server that answers 200 with a payload: every tile
  of zoom level 4 is fetched, at least sixteen of them, and the commit after the tenth
  completion makes the first records durable. The row count of zoom level 4 differs
  between the two archives.
\<close>

theorem resume_row_count_counterexample:
  "row_count (archive (create_nationalmap_mbtiles (\<lambda>_ _. Response 200 [1]) (\<lambda>_ _. 0) (\<lambda>ts. ts)
      (Some (archive (create_nationalmap_mbtiles (\<lambda>_ _. OtherException) (\<lambda>_ _. 0) (\<lambda>ts. ts)
         None ''key'' 4 4))) ''key'' 4 4)) 4
   \<noteq> row_count (archive (create_nationalmap_mbtiles (\<lambda>_ _. OtherException) (\<lambda>_ _. 0) (\<lambda>ts. ts)
         None ''key'' 4 4)) 4"
proof -
  let ?r1 = "create_nationalmap_mbtiles (\<lambda>_ _. OtherException) (\<lambda>_ _. 0) (\<lambda>ts. ts) None ''key'' 4 4"
  from first_run_blank[of "''key''"] have b: "schema (archive ?r1)" "tiles (archive ?r1) = []" by simp_all
  from second_run_commits[OF b, of "''key''"] obtain r where
    r: "r \<in> set (tiles (archive (create_nationalmap_mbtiles (\<lambda>_ _. Response 200 [1]) (\<lambda>_ _. 0)
            (\<lambda>ts. ts) (Some (archive ?r1)) ''key'' 4 4)))" "fst r = 4" by blast
  then have "filter (\<lambda>r. fst r = 4) (tiles (archive (create_nationalmap_mbtiles (\<lambda>_ _. Response 200 [1])
       (\<lambda>_ _. 0) (\<lambda>ts. ts) (Some (archive ?r1)) ''key'' 4 4))) \<noteq> []"
    by (auto simp add: filter_empty_conv)
  then show ?thesis using b(2) by (simp add: row_count_def)
qed

end
